theory Spec2Isabelle
  imports Complex_Main "HOL-Library.Log_Nat" "HOL-Library.Multiset"
begin

section \<open>The Number values of the platform\<close>

text \<open>
  Every score and every running sum of \<^verbatim>\<open>App.js\<close> is an ECMAScript Number, an IEEE 754
  binary64 value. A finite Number is modelled by its exact rational value, so that equality of
  the model is equality of values; the two zeros are one value \<open>Fin 0\<close>, which no expression of
  \<^verbatim>\<open>App.js\<close> that is modelled here can tell apart (both print as \<^verbatim>\<open>0\<close>).
\<close>

datatype number = Fin rat | PosInf | NegInf | NaN

text \<open>\<open>ilog2 r\<close> is the integer part of the binary logarithm of a positive rational.\<close>

definition ilog2 :: "rat \<Rightarrow> int" where
  "ilog2 r = (let g = (if 1 \<le> r then bitlen \<lfloor>r\<rfloor> - 1 else - bitlen \<lfloor>1 / r\<rfloor>)
              in if 2 powi (g + 1) \<le> r then g + 1 else g)"

definition round_half_even :: "rat \<Rightarrow> int" where
  "round_half_even q = (let f = \<lfloor>q\<rfloor>; d = q - of_int f in
      if d < 1 / 2 then f else if 1 / 2 < d then f + 1 else if even f then f else f + 1)"

text \<open>
  Rounding of an exact result to binary64: 53 significant bits, least exponent \<open>-1074\<close>
  (subnormal numbers), round to nearest with ties to even, overflow to an infinity.
\<close>

definition round_double :: "rat \<Rightarrow> number" where
  "round_double r =
     (if r = 0 then Fin 0 else
      let e = max (ilog2 \<bar>r\<bar> - 52) (- 1074);
          v = of_int (round_half_even (r / 2 powi e)) * 2 powi e
      in if 2 ^ 1024 \<le> v then PosInf else if v \<le> - (2 ^ 1024) then NegInf else Fin v)"

fun js_neg :: "number \<Rightarrow> number" where
  "js_neg (Fin a) = Fin (- a)"
| "js_neg PosInf = NegInf"
| "js_neg NegInf = PosInf"
| "js_neg NaN = NaN"

text \<open>The operator \<^verbatim>\<open>+\<close> on two Numbers.\<close>

fun js_add :: "number \<Rightarrow> number \<Rightarrow> number" where
  "js_add (Fin a) (Fin b) = round_double (a + b)"
| "js_add NaN _ = NaN"
| "js_add _ NaN = NaN"
| "js_add PosInf NegInf = NaN"
| "js_add NegInf PosInf = NaN"
| "js_add PosInf _ = PosInf"
| "js_add NegInf _ = NegInf"
| "js_add _ PosInf = PosInf"
| "js_add _ NegInf = NegInf"

text \<open>
  The operators \<^verbatim>\<open>*\<close> and \<^verbatim>\<open>/\<close>. A zero divisor is taken as the positive zero: a
  non-zero finite dividend gives an infinity of its own sign and \<^verbatim>\<open>0 / 0\<close> gives \<^verbatim>\<open>NaN\<close>;
  nothing is raised.
\<close>

fun js_mul :: "number \<Rightarrow> number \<Rightarrow> number" where
  "js_mul (Fin a) (Fin b) = round_double (a * b)"
| "js_mul NaN _ = NaN"
| "js_mul _ NaN = NaN"
| "js_mul PosInf (Fin b) = (if b = 0 then NaN else if 0 < b then PosInf else NegInf)"
| "js_mul NegInf (Fin b) = (if b = 0 then NaN else if 0 < b then NegInf else PosInf)"
| "js_mul (Fin a) PosInf = (if a = 0 then NaN else if 0 < a then PosInf else NegInf)"
| "js_mul (Fin a) NegInf = (if a = 0 then NaN else if 0 < a then NegInf else PosInf)"
| "js_mul PosInf PosInf = PosInf"
| "js_mul NegInf NegInf = PosInf"
| "js_mul PosInf NegInf = NegInf"
| "js_mul NegInf PosInf = NegInf"

fun js_div :: "number \<Rightarrow> number \<Rightarrow> number" where
  "js_div (Fin a) (Fin b) =
     (if b = 0 then (if a = 0 then NaN else if 0 < a then PosInf else NegInf)
      else round_double (a / b))"
| "js_div NaN _ = NaN"
| "js_div _ NaN = NaN"
| "js_div (Fin a) PosInf = Fin 0"
| "js_div (Fin a) NegInf = Fin 0"
| "js_div PosInf (Fin b) = (if 0 \<le> b then PosInf else NegInf)"
| "js_div NegInf (Fin b) = (if 0 \<le> b then NegInf else PosInf)"
| "js_div PosInf PosInf = NaN"
| "js_div PosInf NegInf = NaN"
| "js_div NegInf PosInf = NaN"
| "js_div NegInf NegInf = NaN"

text \<open>\<^verbatim>\<open>Math.round\<close>: the nearest integer, a tie going up.\<close>

fun math_round :: "number \<Rightarrow> number" where
  "math_round (Fin r) = Fin (of_int \<lfloor>r + 1 / 2\<rfloor>)"
| "math_round x = x"

subsection \<open>Numbers to strings\<close>

definition digit_char :: "int \<Rightarrow> char" where
  "digit_char d = char_of (48 + d)"

text \<open>The decimal digits of a natural number, given as an integer.\<close>

function digits :: "int \<Rightarrow> string" where
  "digits n = (if n < 10 then [digit_char n] else digits (n div 10) @ [digit_char (n mod 10)])"
  by pat_completeness auto
termination
  by (relation "measure nat") auto

declare digits.simps [simp del]

text \<open>
  \<^verbatim>\<open>Number::toString\<close> picks the decimal \<open>s * 10 ^ p\<close> with the fewest digits \<open>s\<close> that rounds
  back to the Number, the closest one when there are several. The search tries the
  exponents \<open>p\<close> from the largest downwards; at each exponent the two multiples of
  \<open>10 ^ p\<close> around \<open>x\<close> are the only candidates. A binary64 value is itself a multiple of
  \<open>10 ^ (-1074)\<close>, so the search ends before the bound.
\<close>

function shortest_from :: "int \<Rightarrow> rat \<Rightarrow> int \<times> int" where
  "shortest_from p x =
     (let s1 = \<lfloor>x / 10 powi p\<rfloor>; s2 = s1 + 1;
          c1 = of_int s1 * 10 powi p; c2 = of_int s2 * 10 powi p;
          ok1 = (round_double c1 = Fin x); ok2 = (round_double c2 = Fin x)
      in if ok1 \<and> ok2 then
           (if x - c1 < c2 - x then (s1, p) else if c2 - x < x - c1 then (s2, p)
            else if even s1 then (s1, p) else (s2, p))
         else if ok1 then (s1, p)
         else if ok2 then (s2, p)
         else if p \<le> - 1100 then (s1, p)
         else shortest_from (p - 1) x)"
  by pat_completeness auto
termination
  by (relation "measure (\<lambda>(p, x). nat (p + 1100))") auto

declare shortest_from.simps [simp del]

text \<open>The string of a positive finite Number, in the four layouts of \<^verbatim>\<open>Number::toString\<close>.\<close>

definition pos_toString :: "rat \<Rightarrow> string" where
  "pos_toString x =
     (let sp = shortest_from (int (length (digits \<lceil>x\<rceil>))) x;
          ds = digits (fst sp); k = int (length ds); n = k + snd sp
      in if k \<le> n \<and> n \<le> 21 then ds @ replicate (nat (n - k)) CHR ''0''
         else if 0 < n \<and> n \<le> 21 then take (nat n) ds @ ''.'' @ drop (nat n) ds
         else if - 6 < n \<and> n \<le> 0 then ''0.'' @ replicate (nat (- n)) CHR ''0'' @ ds
         else let ex = n - 1;
                  es = (if ex < 0 then ''-'' else ''+'') @ digits \<bar>ex\<bar>
              in if k = 1 then ds @ ''e'' @ es
                 else take 1 ds @ ''.'' @ drop 1 ds @ ''e'' @ es)"

fun number_toString :: "number \<Rightarrow> string" where
  "number_toString NaN = ''NaN''"
| "number_toString PosInf = ''Infinity''"
| "number_toString NegInf = ''-Infinity''"
| "number_toString (Fin x) =
     (if x = 0 then ''0'' else if x < 0 then ''-'' @ pos_toString (- x) else pos_toString x)"

text \<open>
  \<^verbatim>\<open>Number.prototype.toFixed\<close> with \<open>f\<close> fraction digits (\<^verbatim>\<open>App.js\<close> calls it with \<open>1\<close>;
  more than 100 digits are a \<^verbatim>\<open>RangeError\<close> and not modelled): for the magnitude \<open>a\<close> of
  the Number, the integer \<open>n\<close> nearest to \<open>a * 10 ^ f\<close>, the larger one at a tie, printed
  with a point before its last \<open>f\<close> digits and after the sign; from \<open>10 ^ 21\<close> on, the
  string of the Number itself.
\<close>

definition toFixed :: "number \<Rightarrow> nat \<Rightarrow> string" where
  "toFixed x f =
     (case x of
        Fin r \<Rightarrow>
          (let s = (if r < 0 then ''-'' else ''''); a = \<bar>r\<bar>
           in if 10 ^ 21 \<le> a then s @ number_toString (Fin a)
              else let n = \<lfloor>a * 10 ^ f + 1 / 2\<rfloor>; m0 = digits n;
                       m = (if f \<noteq> 0 then
                              (let m1 = (if length m0 \<le> f
                                         then replicate (f + 1 - length m0) CHR ''0'' @ m0
                                         else m0);
                                   k = length m1
                               in take (k - f) m1 @ ''.'' @ drop (k - f) m1)
                            else m0)
                   in s @ m)
      | _ \<Rightarrow> number_toString x)"

subsection \<open>Strings to numbers\<close>

definition is_digit :: "char \<Rightarrow> bool" where
  "is_digit c \<longleftrightarrow> (48::int) \<le> of_char c \<and> of_char c \<le> (57::int)"

definition is_space :: "char \<Rightarrow> bool" where
  "is_space c \<longleftrightarrow> of_char c \<in> {9::int, 10, 11, 12, 13, 32}"

definition digits_val :: "string \<Rightarrow> int" where
  "digits_val ds = foldl (\<lambda>a c. 10 * a + (of_char c - 48)) 0 ds"

text \<open>The value of the exponent part at the head of the input; \<open>0\<close> when there is none.\<close>

definition exponent_digits :: "string \<Rightarrow> int option" where
  "exponent_digits cs =
     (let es = takeWhile is_digit cs in if es = [] then None else Some (digits_val es))"

fun parse_exponent :: "string \<Rightarrow> int" where
  "parse_exponent [] = 0"
| "parse_exponent (c # cs) =
     (if c = CHR ''e'' \<or> c = CHR ''E'' then
        (case cs of
           [] \<Rightarrow> 0
         | d # ds \<Rightarrow>
             if d = CHR ''-'' then (case exponent_digits ds of None \<Rightarrow> 0 | Some v \<Rightarrow> - v)
             else if d = CHR ''+'' then (case exponent_digits ds of None \<Rightarrow> 0 | Some v \<Rightarrow> v)
             else (case exponent_digits cs of None \<Rightarrow> 0 | Some v \<Rightarrow> v))
      else 0)"

definition parse_unsigned :: "string \<Rightarrow> number" where
  "parse_unsigned s =
     (if take 8 s = ''Infinity'' then PosInf
      else let ip = takeWhile is_digit s; r1 = dropWhile is_digit s;
               hasdot = (case r1 of [] \<Rightarrow> False | c # _ \<Rightarrow> c = CHR ''.'');
               fp = (if hasdot then takeWhile is_digit (tl r1) else []);
               r2 = (if hasdot then dropWhile is_digit (tl r1) else r1)
           in if ip = [] \<and> fp = [] then NaN
              else round_double (of_int (digits_val (ip @ fp))
                                  * 10 powi (parse_exponent r2 - int (length fp))))"

text \<open>
  \<^verbatim>\<open>parseFloat\<close>: leading white space (here the ASCII one) is dropped, then the longest
  prefix that is a decimal literal is read and rounded to a Number; \<^verbatim>\<open>NaN\<close> when there
  is no such prefix.
\<close>

definition parseFloat :: "string \<Rightarrow> number" where
  "parseFloat str =
     (case dropWhile is_space str of
        [] \<Rightarrow> NaN
      | c # cs \<Rightarrow>
          if c = CHR ''-'' then js_neg (parse_unsigned cs)
          else if c = CHR ''+'' then parse_unsigned cs
          else parse_unsigned (c # cs))"

section \<open>The dataset\<close>

text \<open>
  \<^verbatim>\<open>sampleData.models\<close> is an object of objects of objects of arrays. An object is modelled
  by the sequence \<^verbatim>\<open>Object.entries\<close> enumerates, which has no key twice (\<open>wf_obj\<close>). The
  enumeration puts array-index keys first, in ascending order, and the other keys in the order of
  their insertion; an object that is filled in the order in which another one is enumerated
  is therefore enumerated in the order it was filled, which is what \<open>obj_set\<close> keeps.

  The sequence holds the object's own properties. The objects of the dataset are only
  enumerated; the object \<^verbatim>\<open>filteredData\<close> that the loop fills is also read and
  written by key, where the members it inherits from \<^verbatim>\<open>Object.prototype\<close> show
  (see \<open>object_prototype_members\<close> below).
\<close>

record response =
  answer_num :: int
  answer :: string
  coherence_score :: number
  embedding_dissimilarity_score :: number

type_synonym 'v obj = "(string \<times> 'v) list"
type_synonym questions = "response list obj"
type_synonym params = "questions obj"
type_synonym dataset = "params obj"

definition wf_obj :: "'v obj \<Rightarrow> bool" where
  "wf_obj ob \<longleftrightarrow> distinct (map fst ob)"

definition wf_params :: "params \<Rightarrow> bool" where
  "wf_params ps \<longleftrightarrow> wf_obj ps \<and> list_all (\<lambda>kv. wf_obj (snd kv)) ps"

definition wf_dataset :: "dataset \<Rightarrow> bool" where
  "wf_dataset ds \<longleftrightarrow> wf_obj ds \<and> list_all (\<lambda>kv. wf_params (snd kv)) ds"

text \<open>\<^verbatim>\<open>ob[k] = v\<close>: an existing key keeps its place, a new key goes to the end.\<close>

fun obj_set :: "string \<Rightarrow> 'v \<Rightarrow> 'v obj \<Rightarrow> 'v obj" where
  "obj_set k v [] = [(k, v)]"
| "obj_set k v ((k', v') # ob) = (if k' = k then (k, v) # ob else (k', v') # obj_set k v ob)"

text \<open>
  \<^verbatim>\<open>ob[k][q] = v\<close> changes the object stored under \<open>k\<close> where it is. When \<open>ob\<close> has
  no property \<open>k\<close> of its own, the object that is changed is not one of those stored in
  \<open>ob\<close>, and \<open>ob\<close> stays as it is.
\<close>

fun obj_modify :: "string \<Rightarrow> ('v \<Rightarrow> 'v) \<Rightarrow> 'v obj \<Rightarrow> 'v obj" where
  "obj_modify k g [] = []"
| "obj_modify k g ((k', v') # ob) =
     (if k' = k then (k', g v') # ob else (k', v') # obj_modify k g ob)"

text \<open>
  An object made by \<^verbatim>\<open>{}\<close> inherits the members of \<^verbatim>\<open>Object.prototype\<close>: eleven
  functions and the accessor \<^verbatim>\<open>__proto__\<close>. None of them is enumerable, so
  \<^verbatim>\<open>Object.entries\<close> never lists them, but reading one of these names from an
  object that has no property of that name of its own yields the inherited member: a
  function or, for \<^verbatim>\<open>__proto__\<close>, the object \<^verbatim>\<open>Object.prototype\<close> itself.
\<close>

definition object_prototype_members :: "string list" where
  "object_prototype_members =
     [''constructor'', ''__defineGetter__'', ''__defineSetter__'', ''hasOwnProperty'',
      ''__lookupGetter__'', ''__lookupSetter__'', ''isPrototypeOf'', ''propertyIsEnumerable'',
      ''toString'', ''valueOf'', ''__proto__'', ''toLocaleString'']"

text \<open>
  Whether \<^verbatim>\<open>ob[k]\<close> is truthy, for an object \<open>ob\<close> made by \<^verbatim>\<open>{}\<close> whose own
  values are objects: an own property is found first, then an inherited member, and both
  are truthy; any other key reads \<^verbatim>\<open>undefined\<close>.
\<close>

definition truthy_at :: "'v obj \<Rightarrow> string \<Rightarrow> bool" where
  "truthy_at ob k \<longleftrightarrow> k \<in> set (map fst ob) \<or> k \<in> set object_prototype_members"

text \<open>
  \<^verbatim>\<open>inner[q] = v\<close> for an array \<open>v\<close> and an object \<open>inner\<close> made by \<^verbatim>\<open>{}\<close>. The
  key \<^verbatim>\<open>__proto__\<close> names the accessor of \<^verbatim>\<open>Object.prototype\<close>: its setter makes
  \<open>v\<close> the prototype of \<open>inner\<close> and adds no property. Every other key becomes a
  property of \<open>inner\<close> itself (the other inherited members are writable data
  properties, which an assignment shadows), also after the prototype has become an array.
\<close>

definition obj_assign :: "string \<Rightarrow> 'v \<Rightarrow> 'v obj \<Rightarrow> 'v obj" where
  "obj_assign q v inner = (if q = ''__proto__'' then inner else obj_set q v inner)"

section \<open>Aggregation\<close>

text \<open>
  The counter \<^verbatim>\<open>totalResponses\<close> is a Number that only ever grows by one; such a Number is
  exact below \<open>2 ^ 53\<close>, and it is modelled by a natural number.
\<close>

record loop_state =
  total :: nat
  sumCoherence :: number
  sumDissimilarity :: number
  filtered :: params

record modelMetrics =
  modelName :: string
  totalResponses :: nat
  totalCoherence :: string
  totalDissimilarity :: string
  filteredData :: params

text \<open>The body of \<^verbatim>\<open>responses.forEach\<close>.\<close>

definition count_response :: "response \<Rightarrow> loop_state \<Rightarrow> loop_state" where
  "count_response resp st =
     st\<lparr>total := total st + 1,
        sumCoherence := js_add (sumCoherence st) (coherence_score resp),
        sumDissimilarity := js_add (sumDissimilarity st) (embedding_dissimilarity_score resp)\<rparr>"

text \<open>
  The body of the loop over the questions of one configuration. For a configuration key
  that names a member of \<^verbatim>\<open>Object.prototype\<close> the test
  \<^verbatim>\<open>!filteredData[paramKey]\<close> finds the inherited member, no property is created, and
  the assignment that follows writes to that member, an object shared by the whole program:
  \<^verbatim>\<open>filteredData\<close> stays as it is and the responses are counted. The state below
  does not hold that shared object, so it does not tell what the write does to it: a later
  read of \<^verbatim>\<open>Object.prototype\<close> may find the new property, and the write raises a
  \<^verbatim>\<open>TypeError\<close> where the member does not admit it. No such write happens under
  \<open>plain_keys\<close>, the hypothesis of the description of \<^verbatim>\<open>filteredData\<close> as the
  filtered dataset.
\<close>

definition question_step ::
  "string list \<Rightarrow> string \<Rightarrow> string \<times> response list \<Rightarrow> loop_state \<Rightarrow> loop_state" where
  "question_step selectedQuestions paramKey qr st =
     (if length selectedQuestions = 0 \<or> fst qr \<in> set selectedQuestions then
        (let fd1 = (if \<not> truthy_at (filtered st) paramKey
                    then obj_set paramKey [] (filtered st) else filtered st);
             fd2 = obj_modify paramKey (obj_assign (fst qr) (snd qr)) fd1
         in fold count_response (snd qr) (st\<lparr>filtered := fd2\<rparr>))
      else st)"

definition param_step :: "string list \<Rightarrow> string \<times> questions \<Rightarrow> loop_state \<Rightarrow> loop_state" where
  "param_step selectedQuestions pq st =
     fold (question_step selectedQuestions (fst pq)) (snd pq) st"

definition init_state :: loop_state where
  "init_state = \<lparr>total = 0, sumCoherence = Fin 0, sumDissimilarity = Fin 0, filtered = []\<rparr>"

definition model_state :: "string list \<Rightarrow> params \<Rightarrow> loop_state" where
  "model_state selectedQuestions ps = fold (param_step selectedQuestions) ps init_state"

text \<open>The body of the loop over the models: one summary is pushed for each.\<close>

definition model_metrics :: "string list \<Rightarrow> string \<times> params \<Rightarrow> modelMetrics" where
  "model_metrics selectedQuestions mp =
     (let st = model_state selectedQuestions (snd mp)
      in \<lparr>modelName = fst mp,
          totalResponses = total st,
          totalCoherence =
            (if total st > 0 then number_toString (math_round (sumCoherence st)) else ''0''),
          totalDissimilarity =
            (if total st > 0
             then number_toString (parseFloat (toFixed (sumDissimilarity st) 1)) else ''0''),
          filteredData = filtered st\<rparr>)"

definition aggregate :: "dataset \<Rightarrow> string list \<Rightarrow> modelMetrics list" where
  "aggregate ds selectedQuestions = map (model_metrics selectedQuestions) ds"

section \<open>Ranking and scaling\<close>

text \<open>
  \<^verbatim>\<open>Array.prototype.sort\<close> is a stable sort by the comparator (the language standard
  requires stability since its 2019 edition); with a consistent comparator, as the difference
  of two counts is, its result is the one the insertion sort below computes.
\<close>

fun insert_sorted :: "('a \<Rightarrow> 'a \<Rightarrow> int) \<Rightarrow> 'a \<Rightarrow> 'a list \<Rightarrow> 'a list" where
  "insert_sorted cmp x [] = [x]"
| "insert_sorted cmp x (y # ys) =
     (if cmp x y > 0 then y # insert_sorted cmp x ys else x # y # ys)"

definition js_sort :: "('a \<Rightarrow> 'a \<Rightarrow> int) \<Rightarrow> 'a list \<Rightarrow> 'a list" where
  "js_sort cmp xs = foldr (insert_sorted cmp) xs []"

definition by_total_desc :: "modelMetrics \<Rightarrow> modelMetrics \<Rightarrow> int" where
  "by_total_desc a b = int (totalResponses b) - int (totalResponses a)"

definition modelsMetrics :: "dataset \<Rightarrow> string list \<Rightarrow> modelMetrics list" where
  "modelsMetrics ds selectedQuestions = js_sort by_total_desc (aggregate ds selectedQuestions)"

definition bestTotal :: "modelMetrics list \<Rightarrow> nat" where
  "bestTotal ms = (if length ms > 0 then totalResponses (ms ! 0) else 0)"

definition ratio :: "nat \<Rightarrow> modelMetrics \<Rightarrow> number" where
  "ratio best model =
     (if best \<noteq> 0
      then js_mul (js_div (Fin (of_nat (totalResponses model))) (Fin (of_nat best))) (Fin 100)
      else Fin 0)"

section \<open>Drill-down\<close>

text \<open>
  \<^verbatim>\<open>selectedModelName\<close> is a string or \<^verbatim>\<open>null\<close>; \<^verbatim>\<open>!selectedModelName\<close> holds for \<^verbatim>\<open>null\<close>
  and for the empty string. A found summary's \<^verbatim>\<open>filteredData\<close> is an object, hence truthy.
\<close>

definition selectedModelDetail :: "modelMetrics list \<Rightarrow> string option \<Rightarrow> params option" where
  "selectedModelDetail ms selectedModelName =
     (case selectedModelName of
        None \<Rightarrow> None
      | Some nm \<Rightarrow>
          if nm = [] then None
          else (case find (\<lambda>m. modelName m = nm) ms of
                  None \<Rightarrow> None
                | Some model \<Rightarrow> Some (filteredData model)))"

text \<open>What the modal shows: the drill-down, or the line "No data available for this model."\<close>

datatype modal_body = Detail params | NoData

definition modalBody :: "params option \<Rightarrow> modal_body" where
  "modalBody detail = (case detail of Some fd \<Rightarrow> Detail fd | None \<Rightarrow> NoData)"

section \<open>Vocabulary of the properties\<close>

text \<open>
  A question passes the filter when nothing is selected or it is among the selected ones.
  \<open>response_count\<close> counts the Response records of a dataset subtree, \<open>included_count\<close>
  those of the questions that pass, and \<open>filter_params\<close> is the subtree restricted to the
  questions that pass, without the configurations this leaves empty.
\<close>

definition passes :: "string list \<Rightarrow> string \<Rightarrow> bool" where
  "passes sel q \<longleftrightarrow> sel = [] \<or> q \<in> set sel"

definition response_count :: "params \<Rightarrow> nat" where
  "response_count ps = (\<Sum>pq\<leftarrow>ps. \<Sum>qr\<leftarrow>snd pq. length (snd qr))"

definition included_count :: "string list \<Rightarrow> params \<Rightarrow> nat" where
  "included_count sel ps =
     (\<Sum>pq\<leftarrow>ps. \<Sum>qr\<leftarrow>snd pq. if passes sel (fst qr) then length (snd qr) else 0)"

definition filter_params :: "string list \<Rightarrow> params \<Rightarrow> params" where
  "filter_params sel ps =
     filter (\<lambda>pq. snd pq \<noteq> [])
       (map (\<lambda>pq. (fst pq, filter (\<lambda>qr. passes sel (fst qr)) (snd pq))) ps)"

text \<open>
  \<open>plain_keys\<close> holds of a dataset under a filter when no configuration key names a
  member of \<^verbatim>\<open>Object.prototype\<close> and no question that passes the filter has the key
  \<^verbatim>\<open>__proto__\<close>. The first condition does not depend on the filter: a write under
  such a configuration key changes an object that every later evaluation shares, whatever
  filter it happened under. The second one does: the object whose prototype a question
  \<^verbatim>\<open>__proto__\<close> changes is made anew by each evaluation.
\<close>

definition plain_params :: "string list \<Rightarrow> params \<Rightarrow> bool" where
  "plain_params sel ps \<longleftrightarrow>
     list_all (\<lambda>pq. fst pq \<notin> set object_prototype_members
                  \<and> list_all (\<lambda>qr. passes sel (fst qr) \<longrightarrow> fst qr \<noteq> ''__proto__'') (snd pq)) ps"

definition plain_keys :: "string list \<Rightarrow> dataset \<Rightarrow> bool" where
  "plain_keys sel ds \<longleftrightarrow> list_all (\<lambda>mp. plain_params sel (snd mp)) ds"

abbreviation desc :: "modelMetrics \<Rightarrow> modelMetrics \<Rightarrow> bool" where
  "desc a b \<equiv> totalResponses b \<le> totalResponses a"

text \<open>
  \<open>is_double\<close> holds of the rationals that are binary64 values: at most 53 significant
  bits at an exponent between \<open>-1074\<close> and \<open>971\<close>. \<open>expo\<close> is the exponent at which
  \<open>round_double\<close> rounds. \<open>render_int\<close> is the decimal numeral of an integer and
  \<open>render_tenths n\<close> the decimal numeral of \<open>n / 10\<close> for a natural number \<open>n\<close>, with no
  fraction part when the tenth digit is zero.
\<close>

definition is_double :: "rat \<Rightarrow> bool" where
  "is_double v \<longleftrightarrow> (\<exists>m e. v = of_int m * 2 powi e \<and> \<bar>m\<bar> < 2 ^ 53 \<and> - 1074 \<le> e \<and> e \<le> 971)"

definition expo :: "rat \<Rightarrow> int" where
  "expo r = max (ilog2 \<bar>r\<bar> - 52) (- 1074)"

definition render_int :: "int \<Rightarrow> string" where
  "render_int j = (if j < 0 then ''-'' @ digits (- j) else digits j)"

definition render_tenths :: "int \<Rightarrow> string" where
  "render_tenths n =
     (if n mod 10 = 0 then digits (n div 10) else digits (n div 10) @ ''.'' @ digits (n mod 10))"

text \<open>
  \<open>included_responses\<close> lists the Response records of the questions that pass the filter, in
  the order the loops visit them, and \<open>add_all\<close> is the running sum the loops keep.
\<close>

definition included_responses :: "string list \<Rightarrow> params \<Rightarrow> response list" where
  "included_responses sel ps =
     concat (map (\<lambda>pq. concat (map snd (filter (\<lambda>qr. passes sel (fst qr)) (snd pq)))) ps)"

definition add_all :: "number list \<Rightarrow> number \<Rightarrow> number" where
  "add_all xs s = fold (\<lambda>x a. js_add a x) xs s"

section \<open>A small dataset for the closed instances\<close>

definition sample_response :: "int \<Rightarrow> response" where
  "sample_response n =
     \<lparr>answer_num = n, answer = ''text'', coherence_score = Fin 3,
      embedding_dissimilarity_score = Fin (1 / 2)\<rparr>"

definition sample_models :: dataset where
  "sample_models =
     [(''openai/gpt-4'',
         [(''temp-0.7'', [(''Q1'', [sample_response 1])])]),
      (''anthropic/claude'',
         [(''temp-0.7'', [(''Q1'', [sample_response 1]),
                         (''Q2'', [sample_response 1])])]),
      (''x-ai/grok'',
         [(''temp-0.7'', [(''Q2'', [sample_response 1])]),
          (''temp-1.0'', [(''Q2'', [sample_response 1])])])]"

text \<open>
  The dataset of the formatting example: one model whose two responses have the coherence
  scores 3.2 and 4.8 and the dissimilarity scores 0.1 and 0.25, each the Number nearest to
  the decimal. The second dataset has one response of coherence \<open>1.5e21\<close>.
\<close>

definition example_models :: dataset where
  "example_models =
     [(''openai/gpt-4'',
        [(''temp-0.7'',
           [(''Q1'',
              [\<lparr>answer_num = 1, answer = ''first'', coherence_score = round_double (16 / 5),
                embedding_dissimilarity_score = round_double (1 / 10)\<rparr>,
               \<lparr>answer_num = 2, answer = ''second'', coherence_score = round_double (24 / 5),
                embedding_dissimilarity_score = round_double (1 / 4)\<rparr>])])])]"

definition large_models :: dataset where
  "large_models =
     [(''openai/gpt-4'',
        [(''temp-0.7'',
           [(''Q1'',
              [\<lparr>answer_num = 1, answer = ''first'',
                coherence_score = Fin 1500000000000000000000,
                embedding_dissimilarity_score = Fin 0\<rparr>])])])]"

section \<open>Counting the included responses\<close>

lemma total_fold_count: "total (fold count_response rs st) = total st + length rs"
  by (induction rs arbitrary: st) (simp_all add: count_response_def)

lemma filtered_fold_count: "filtered (fold count_response rs st) = filtered st"
  by (induction rs arbitrary: st) (simp_all add: count_response_def)

lemma total_question_step:
  "total (question_step sel pk qr st) =
     total st + (if passes sel (fst qr) then length (snd qr) else 0)"
  by (simp add: question_step_def passes_def Let_def total_fold_count)

lemma total_fold_question_step:
  "total (fold (question_step sel pk) qs st) =
     total st + (\<Sum>qr\<leftarrow>qs. if passes sel (fst qr) then length (snd qr) else 0)"
  by (induction qs arbitrary: st) (simp_all add: total_question_step)

lemma total_fold_param_step:
  "total (fold (param_step sel) ps st) = total st + included_count sel ps"
  by (induction ps arbitrary: st)
     (simp_all add: included_count_def param_step_def total_fold_question_step)

lemma total_model_state: "total (model_state sel ps) = included_count sel ps"
  by (simp add: model_state_def total_fold_param_step init_state_def)

lemma totalResponses_model_metrics:
  "totalResponses (model_metrics sel mp) = included_count sel (snd mp)"
  by (simp add: model_metrics_def Let_def total_model_state)



lemma obj_set_append: "k \<notin> fst ` set ob \<Longrightarrow> obj_set k v ob = ob @ [(k, v)]"
  by (induction ob) auto

lemma obj_modify_append:
  "k \<notin> fst ` set ob \<Longrightarrow> obj_modify k g (ob @ [(k, v)]) = ob @ [(k, g v)]"
  by (induction ob) auto

lemma filtered_questions_present:
  assumes "pk \<notin> fst ` set fd0" and "distinct (map fst qs)"
    and "fst ` set acc \<inter> fst ` set qs = {}" and "filtered st = fd0 @ [(pk, acc)]"
    and "\<forall>qr\<in>set qs. passes sel (fst qr) \<longrightarrow> fst qr \<noteq> ''__proto__''"
  shows "filtered (fold (question_step sel pk) qs st) =
           fd0 @ [(pk, acc @ filter (\<lambda>qr. passes sel (fst qr)) qs)]"
  using assms
proof (induction qs arbitrary: st acc)
  case Nil
  then show ?case by simp
next
  case (Cons qr qs)
  from Cons.prems(5) have np: "\<forall>qr\<in>set qs. passes sel (fst qr) \<longrightarrow> fst qr \<noteq> ''__proto__''"
    by simp
  show ?case
  proof (cases "passes sel (fst qr)")
    case False
    then have "question_step sel pk qr st = st"
      by (simp add: question_step_def passes_def)
    with Cons.IH [OF Cons.prems(1) _ _ _ np, of acc st] Cons.prems False show ?thesis by auto
  next
    case True
    let ?st' = "question_step sel pk qr st"
    from Cons.prems have notin: "fst qr \<notin> fst ` set acc" by auto
    from Cons.prems(5) True have nq: "fst qr \<noteq> ''__proto__''" by simp
    have "filtered ?st' = fd0 @ [(pk, acc @ [(fst qr, snd qr)])]"
      using True Cons.prems(1,4) notin nq
      by (simp add: question_step_def passes_def Let_def filtered_fold_count truthy_at_def
          obj_assign_def obj_modify_append obj_set_append)
    moreover have "fst ` set (acc @ [(fst qr, snd qr)]) \<inter> fst ` set qs = {}"
      using Cons.prems(2,3) by auto
    moreover have "distinct (map fst qs)" using Cons.prems(2) by simp
    ultimately have "filtered (fold (question_step sel pk) qs ?st') =
        fd0 @ [(pk, (acc @ [(fst qr, snd qr)]) @ filter (\<lambda>qr. passes sel (fst qr)) qs)]"
      using Cons.IH [of "acc @ [(fst qr, snd qr)]" ?st'] Cons.prems(1) np by blast
    with True show ?thesis by simp
  qed
qed

lemma filtered_questions_absent:
  assumes "pk \<notin> fst ` set (filtered st)" and "distinct (map fst qs)"
    and "pk \<notin> set object_prototype_members"
    and "\<forall>qr\<in>set qs. passes sel (fst qr) \<longrightarrow> fst qr \<noteq> ''__proto__''"
  shows "filtered (fold (question_step sel pk) qs st) =
           (if filter (\<lambda>qr. passes sel (fst qr)) qs = [] then filtered st
            else filtered st @ [(pk, filter (\<lambda>qr. passes sel (fst qr)) qs)])"
  using assms
proof (induction qs arbitrary: st)
  case Nil
  then show ?case by simp
next
  case (Cons qr qs)
  from Cons.prems(4) have np: "\<forall>qr\<in>set qs. passes sel (fst qr) \<longrightarrow> fst qr \<noteq> ''__proto__''"
    by simp
  show ?case
  proof (cases "passes sel (fst qr)")
    case False
    then have "question_step sel pk qr st = st"
      by (simp add: question_step_def passes_def)
    with Cons.IH [OF Cons.prems(1) _ Cons.prems(3) np] Cons.prems(2) False show ?thesis by auto
  next
    case True
    let ?st' = "question_step sel pk qr st"
    from Cons.prems(4) True have nq: "fst qr \<noteq> ''__proto__''" by simp
    have "filtered ?st' = filtered st @ [(pk, [(fst qr, snd qr)])]"
      using True Cons.prems(1,3) nq
      by (simp add: question_step_def passes_def Let_def filtered_fold_count truthy_at_def
          obj_assign_def obj_modify_append obj_set_append)
    moreover have "fst ` set [(fst qr, snd qr)] \<inter> fst ` set qs = {}"
      using Cons.prems(2) by auto
    moreover have "distinct (map fst qs)" using Cons.prems(2) by simp
    ultimately have "filtered (fold (question_step sel pk) qs ?st') =
        filtered st @ [(pk, [(fst qr, snd qr)] @ filter (\<lambda>qr. passes sel (fst qr)) qs)]"
      using filtered_questions_present [of pk "filtered st" qs "[(fst qr, snd qr)]" ?st' sel]
        Cons.prems(1) np by blast
    with True show ?thesis by simp
  qed
qed

lemma filtered_fold_param_step:
  assumes "wf_params ps" and "plain_params sel ps"
    and "fst ` set (filtered st) \<inter> fst ` set ps = {}"
  shows "filtered (fold (param_step sel) ps st) = filtered st @ filter_params sel ps"
  using assms
proof (induction ps arbitrary: st)
  case Nil
  then show ?case by (simp add: filter_params_def)
next
  case (Cons pq ps)
  let ?st' = "param_step sel pq st"
  let ?f = "filter (\<lambda>qr. passes sel (fst qr)) (snd pq)"
  from Cons.prems have wf: "wf_params ps" and dq: "distinct (map fst (snd pq))"
    and nk: "fst pq \<notin> fst ` set ps" and na: "fst pq \<notin> fst ` set (filtered st)"
    by (auto simp: wf_params_def wf_obj_def)
  from Cons.prems(2) have pl: "plain_params sel ps"
    and nm: "fst pq \<notin> set object_prototype_members"
    and np: "\<forall>qr\<in>set (snd pq). passes sel (fst qr) \<longrightarrow> fst qr \<noteq> ''__proto__''"
    by (simp_all add: plain_params_def list_all_iff)
  have st': "filtered ?st' = (if ?f = [] then filtered st else filtered st @ [(fst pq, ?f)])"
    unfolding param_step_def using filtered_questions_absent [OF na dq nm np] .
  have "fst ` set (filtered ?st') \<inter> fst ` set ps = {}"
    using Cons.prems(3) nk st' by auto
  from Cons.IH [OF wf pl this] st' show ?case
    by (simp add: filter_params_def)
qed

lemma filtered_model_state:
  "wf_params ps \<Longrightarrow> plain_params sel ps \<Longrightarrow>
   filtered (model_state sel ps) = filter_params sel ps"
  using filtered_fold_param_step [of ps sel init_state]
  by (simp add: model_state_def init_state_def)

lemma filteredData_model_metrics:
  "wf_params (snd mp) \<Longrightarrow> plain_params sel (snd mp) \<Longrightarrow>
   filteredData (model_metrics sel mp) = filter_params sel (snd mp)"
  by (simp add: model_metrics_def Let_def filtered_model_state)

lemma sum_length_filter:
  "(\<Sum>qr\<leftarrow>filter P qs. length (snd qr)) = (\<Sum>qr\<leftarrow>qs. if P qr then length (snd qr) else 0)"
  by (induction qs) simp_all

lemma response_count_filter_params:
  "response_count (filter_params sel ps) = included_count sel ps"
proof -
  have "response_count (filter_params sel ps) =
          (\<Sum>pq\<leftarrow>ps. \<Sum>qr\<leftarrow>filter (\<lambda>qr. passes sel (fst qr)) (snd pq). length (snd qr))"
    by (induction ps) (simp_all add: response_count_def filter_params_def)
  then show ?thesis
    by (simp add: included_count_def sum_length_filter)
qed

lemma response_count_zero_iff:
  "response_count fd = 0 \<longleftrightarrow> (\<forall>kv\<in>set fd. \<forall>qr\<in>set (snd kv). snd qr = [])"
  by (auto simp: response_count_def)

lemma set_insert_sorted: "set (insert_sorted cmp x ys) = insert x (set ys)"
  by (induction ys) auto

lemma mset_insert_sorted: "mset (insert_sorted cmp x ys) = add_mset x (mset ys)"
  by (induction ys) auto

lemma mset_js_sort: "mset (js_sort cmp xs) = mset xs"
  by (induction xs) (simp_all add: js_sort_def mset_insert_sorted)

lemma set_js_sort: "set (js_sort cmp xs) = set xs"
  by (metis mset_js_sort set_mset_mset)


lemma sorted_insert_sorted:
  "sorted_wrt desc ys \<Longrightarrow> sorted_wrt desc (insert_sorted by_total_desc x ys)"
  by (induction ys) (auto simp: set_insert_sorted by_total_desc_def)

lemma sorted_js_sort: "sorted_wrt desc (js_sort by_total_desc xs)"
  by (induction xs) (simp_all add: js_sort_def sorted_insert_sorted)

lemma filter_insert_sorted:
  assumes "sorted_wrt desc ys"
  shows "filter (\<lambda>m. totalResponses m = t) (insert_sorted by_total_desc x ys) =
         filter (\<lambda>m. totalResponses m = t) (x # ys)"
  using assms
proof (induction ys)
  case Nil
  then show ?case by simp
next
  case (Cons y ys)
  show ?case
  proof (cases "by_total_desc x y > 0")
    case False
    then show ?thesis by simp
  next
    case True
    then have lt: "totalResponses x < totalResponses y" by (simp add: by_total_desc_def)
    from Cons have ih: "filter (\<lambda>m. totalResponses m = t) (insert_sorted by_total_desc x ys) =
         filter (\<lambda>m. totalResponses m = t) (x # ys)" by simp
    show ?thesis
    proof (cases "totalResponses x = t")
      case False
      with True ih show ?thesis by simp
    next
      case xt: True
      with lt have "totalResponses y \<noteq> t" by simp
      with True ih show ?thesis by simp
    qed
  qed
qed

lemma filter_js_sort:
  "filter (\<lambda>m. totalResponses m = t) (js_sort by_total_desc xs) =
   filter (\<lambda>m. totalResponses m = t) xs"
proof (induction xs)
  case Nil
  then show ?case by (simp add: js_sort_def)
next
  case (Cons x xs)
  have "js_sort by_total_desc (x # xs) = insert_sorted by_total_desc x (js_sort by_total_desc xs)"
    by (simp add: js_sort_def)
  with Cons filter_insert_sorted [OF sorted_js_sort, of t x xs] show ?case by simp
qed

section \<open>The claims about counting, filtering, ranking and drill-down\<close>

lemma wf_sample_models: "wf_dataset sample_models"
  by (simp add: sample_models_def wf_dataset_def wf_params_def wf_obj_def)

lemma aggregate_totals:
  "map totalResponses (aggregate ds sel) = map (\<lambda>mp. included_count sel (snd mp)) ds"
  by (simp add: aggregate_def totalResponses_model_metrics)

lemma mset_modelsMetrics: "mset (modelsMetrics ds sel) = mset (aggregate ds sel)"
  by (simp add: modelsMetrics_def mset_js_sort)

lemma set_modelsMetrics: "set (modelsMetrics ds sel) = model_metrics sel ` set ds"
  by (simp add: modelsMetrics_def set_js_sort aggregate_def)







lemma wf_dataset_params: "wf_dataset ds \<Longrightarrow> mp \<in> set ds \<Longrightarrow> wf_params (snd mp)"
  by (auto simp: wf_dataset_def list_all_iff)

lemma plain_keys_params: "plain_keys sel ds \<Longrightarrow> mp \<in> set ds \<Longrightarrow> plain_params sel (snd mp)"
  by (auto simp: plain_keys_def list_all_iff)

lemma plain_sample_models: "plain_keys sel sample_models"
  by (simp add: sample_models_def plain_keys_def plain_params_def object_prototype_members_def)

lemma metrics_count_filteredData:
  assumes "wf_params (snd mp)" and "plain_params sel (snd mp)"
  shows "totalResponses (model_metrics sel mp) = response_count (filteredData (model_metrics sel mp))"
  by (simp add: totalResponses_model_metrics filteredData_model_metrics [OF assms]
      response_count_filter_params)

text \<open>
  \<^bold>\<open>Claim C2 (amended).\<close> Take a dataset whose objects have no key twice, in
  which no configuration key names a member of \<^verbatim>\<open>Object.prototype\<close> and no
  question that passes the filter has the key \<^verbatim>\<open>__proto__\<close>. Then for every
  summary: \<^verbatim>\<open>totalResponses\<close> is the number of Response records stored in
  its \<^verbatim>\<open>filteredData\<close>; \<^verbatim>\<open>totalResponses\<close> is zero if and
  only if every response sequence stored in \<^verbatim>\<open>filteredData\<close> is empty; an
  empty \<^verbatim>\<open>filteredData\<close> gives \<^verbatim>\<open>totalResponses = 0\<close>; and
  the equivalence of \<^verbatim>\<open>totalResponses = 0\<close> with an empty
  \<^verbatim>\<open>filteredData\<close> holds of exactly the summaries whose
  \<^verbatim>\<open>filteredData\<close> is empty or stores some non-empty response sequence.
\<close>

theorem total_counts_filteredData:
  assumes "wf_dataset ds" and "plain_keys sel ds"
  shows "\<forall>m\<in>set (modelsMetrics ds sel).
           totalResponses m = response_count (filteredData m)
         \<and> (totalResponses m = 0 \<longleftrightarrow>
              (\<forall>kv\<in>set (filteredData m). \<forall>qr\<in>set (snd kv). snd qr = []))
         \<and> (filteredData m = [] \<longrightarrow> totalResponses m = 0)
         \<and> ((totalResponses m = 0 \<longleftrightarrow> filteredData m = []) \<longleftrightarrow>
              (filteredData m = []
               \<or> (\<exists>kv\<in>set (filteredData m). \<exists>qr\<in>set (snd kv). snd qr \<noteq> [])))"
proof
  fix m assume "m \<in> set (modelsMetrics ds sel)"
  then obtain mp where mp: "mp \<in> set ds" "m = model_metrics sel mp"
    by (auto simp: set_modelsMetrics)
  from wf_dataset_params [OF assms(1) mp(1)] have wf: "wf_params (snd mp)" .
  from plain_keys_params [OF assms(2) mp(1)] have pl: "plain_params sel (snd mp)" .
  have a: "totalResponses m = response_count (filteredData m)"
    unfolding mp(2) by (rule metrics_count_filteredData [OF wf pl])
  then have b: "totalResponses m = 0 \<longleftrightarrow>
      (\<forall>kv\<in>set (filteredData m). \<forall>qr\<in>set (snd kv). snd qr = [])"
    by (simp only: response_count_zero_iff)
  from b have c: "filteredData m = [] \<longrightarrow> totalResponses m = 0" by simp
  from b have "totalResponses m = 0 \<longleftrightarrow>
      \<not> (\<exists>kv\<in>set (filteredData m). \<exists>qr\<in>set (snd kv). snd qr \<noteq> [])"
    by simp
  with c have d: "(totalResponses m = 0 \<longleftrightarrow> filteredData m = []) \<longleftrightarrow>
      (filteredData m = [] \<or> (\<exists>kv\<in>set (filteredData m). \<exists>qr\<in>set (snd kv). snd qr \<noteq> []))"
    by (cases "filteredData m = []") simp_all
  from a b c d
  show "totalResponses m = response_count (filteredData m)
         \<and> (totalResponses m = 0 \<longleftrightarrow>
              (\<forall>kv\<in>set (filteredData m). \<forall>qr\<in>set (snd kv). snd qr = []))
         \<and> (filteredData m = [] \<longrightarrow> totalResponses m = 0)
         \<and> ((totalResponses m = 0 \<longleftrightarrow> filteredData m = []) \<longleftrightarrow>
              (filteredData m = []
               \<or> (\<exists>kv\<in>set (filteredData m). \<exists>qr\<in>set (snd kv). snd qr \<noteq> [])))"
    by (intro conjI)
qed

text \<open>
  \<^bold>\<open>Claim C2, closed instance.\<close> The sample dataset under the filter
  \<open>[Q1]\<close>, where one model keeps no branch and another keeps one response.
\<close>

theorem total_counts_filteredData_witness:
  "wf_dataset sample_models
   \<and> plain_keys [''Q1''] sample_models
   \<and> model_metrics [''Q1''] (''x-ai/grok'',
         [(''temp-0.7'', [(''Q2'', [sample_response 1])]),
          (''temp-1.0'', [(''Q2'', [sample_response 1])])]) \<in> set (modelsMetrics sample_models [''Q1''])
   \<and> filteredData (model_metrics [''Q1''] (''x-ai/grok'',
         [(''temp-0.7'', [(''Q2'', [sample_response 1])]),
          (''temp-1.0'', [(''Q2'', [sample_response 1])])])) = []
   \<and> totalResponses (model_metrics [''Q1''] (''x-ai/grok'',
         [(''temp-0.7'', [(''Q2'', [sample_response 1])]),
          (''temp-1.0'', [(''Q2'', [sample_response 1])])])) = 0
   \<and> model_metrics [''Q1''] (''openai/gpt-4'',
         [(''temp-0.7'', [(''Q1'', [sample_response 1])])]) \<in> set (modelsMetrics sample_models [''Q1''])
   \<and> totalResponses (model_metrics [''Q1''] (''openai/gpt-4'',
         [(''temp-0.7'', [(''Q1'', [sample_response 1])])])) = 1
   \<and> response_count (filteredData (model_metrics [''Q1''] (''openai/gpt-4'',
         [(''temp-0.7'', [(''Q1'', [sample_response 1])])]))) = 1"
proof -
  let ?g = "model_metrics [''Q1''] (''x-ai/grok'',
         [(''temp-0.7'', [(''Q2'', [sample_response 1])]),
          (''temp-1.0'', [(''Q2'', [sample_response 1])])])"
  let ?o = "model_metrics [''Q1''] (''openai/gpt-4'',
         [(''temp-0.7'', [(''Q1'', [sample_response 1])])])"
  have g: "?g \<in> set (modelsMetrics sample_models [''Q1''])"
    and o: "?o \<in> set (modelsMetrics sample_models [''Q1''])"
    by (simp_all add: set_modelsMetrics sample_models_def)
  have ge: "filteredData ?g = []"
    by (simp add: model_metrics_def model_state_def param_step_def question_step_def
        init_state_def Let_def)
  have o1: "totalResponses ?o = 1"
    by (simp add: totalResponses_model_metrics included_count_def passes_def)
  note t = total_counts_filteredData [OF wf_sample_models plain_sample_models, of "[''Q1'']"]
  from t g ge have "totalResponses ?g = 0" by blast
  moreover from t o o1 have "response_count (filteredData ?o) = 1" by metis
  ultimately show ?thesis using wf_sample_models plain_sample_models g ge o o1 by blast
qed

text \<open>
  \<^bold>\<open>Claim C2 as stated fails.\<close> A question that passes the filter with an
  empty response sequence is stored in \<^verbatim>\<open>filteredData\<close> and adds nothing
  to \<^verbatim>\<open>totalResponses\<close>: the total is zero and
  \<^verbatim>\<open>filteredData\<close> is not empty. Under a configuration key that names a
  member of \<^verbatim>\<open>Object.prototype\<close>, here \<^verbatim>\<open>constructor\<close>, the
  responses are counted and nothing is stored: the total is one and
  \<^verbatim>\<open>filteredData\<close> is empty.
\<close>

theorem totalResponses_zero_not_iff_empty:
  "modelsMetrics [(''m'', [(''c'', [(''q'', [])])])] [] =
     [\<lparr>modelName = ''m'', totalResponses = 0, totalCoherence = ''0'',
       totalDissimilarity = ''0'', filteredData = [(''c'', [(''q'', [])])]\<rparr>]
   \<and> map (\<lambda>m. (modelName m, totalResponses m, filteredData m))
       (modelsMetrics [(''m'', [(''constructor'', [(''Q1'', [sample_response 1])])])] []) =
     [(''m'', 1, [])]"
  by (simp add: modelsMetrics_def js_sort_def aggregate_def model_metrics_def model_state_def
      param_step_def question_step_def init_state_def Let_def truthy_at_def obj_assign_def
      object_prototype_members_def count_response_def)


lemma modelName_model_metrics: "modelName (model_metrics sel mp) = fst mp"
  by (simp add: model_metrics_def Let_def)







lemma bestTotal_Cons: "bestTotal (m # ms) = totalResponses m"
  by (simp add: bestTotal_def)

lemma sorted_head_max:
  "sorted_wrt desc ms \<Longrightarrow> m \<in> set ms \<Longrightarrow> totalResponses m \<le> bestTotal ms"
  by (cases ms) (auto simp: bestTotal_Cons)

text \<open>
  \<^bold>\<open>Claim C7.\<close> The ranked summaries are in descending order of
  \<^verbatim>\<open>totalResponses\<close>: every element has at least the total of the next
  one, the first one has the maximum, and the summaries of equal total keep the order they had
  before ranking.
\<close>

theorem ranking_sorted_stable:
  "sorted_wrt (\<lambda>a b. totalResponses b \<le> totalResponses a) (modelsMetrics ds sel)
   \<and> (\<forall>i. Suc i < length (modelsMetrics ds sel) \<longrightarrow>
         totalResponses (modelsMetrics ds sel ! Suc i) \<le> totalResponses (modelsMetrics ds sel ! i))
   \<and> (\<forall>m\<in>set (modelsMetrics ds sel). totalResponses m \<le> bestTotal (modelsMetrics ds sel))
   \<and> (\<forall>t. filter (\<lambda>m. totalResponses m = t) (modelsMetrics ds sel)
           = filter (\<lambda>m. totalResponses m = t) (aggregate ds sel))
   \<and> mset (modelsMetrics ds sel) = mset (aggregate ds sel)"
proof -
  have s: "sorted_wrt desc (modelsMetrics ds sel)"
    by (simp add: modelsMetrics_def sorted_js_sort)
  then have "\<forall>i. Suc i < length (modelsMetrics ds sel) \<longrightarrow>
         totalResponses (modelsMetrics ds sel ! Suc i) \<le> totalResponses (modelsMetrics ds sel ! i)"
    by (simp add: sorted_wrt_iff_nth_less)
  moreover have "\<forall>m\<in>set (modelsMetrics ds sel). totalResponses m \<le> bestTotal (modelsMetrics ds sel)"
    using sorted_head_max [OF s] by blast
  moreover have "\<forall>t. filter (\<lambda>m. totalResponses m = t) (modelsMetrics ds sel)
           = filter (\<lambda>m. totalResponses m = t) (aggregate ds sel)"
    by (simp add: modelsMetrics_def filter_js_sort)
  ultimately show ?thesis using s mset_modelsMetrics by blast
qed

lemma sample_totals:
  "map totalResponses (aggregate sample_models []) = [1, 2, 2]"
  by (simp add: aggregate_totals sample_models_def included_count_def passes_def)

lemma sample_names:
  "map modelName (aggregate sample_models []) = [''openai/gpt-4'', ''anthropic/claude'', ''x-ai/grok'']"
  by (simp add: aggregate_def modelName_model_metrics sample_models_def)


lemma sample_ranked:
  "modelsMetrics sample_models [] =
     [model_metrics [] (''anthropic/claude'',
         [(''temp-0.7'', [(''Q1'', [sample_response 1]), (''Q2'', [sample_response 1])])]),
      model_metrics [] (''x-ai/grok'',
         [(''temp-0.7'', [(''Q2'', [sample_response 1])]),
          (''temp-1.0'', [(''Q2'', [sample_response 1])])]),
      model_metrics [] (''openai/gpt-4'',
         [(''temp-0.7'', [(''Q1'', [sample_response 1])])])]"
  by (simp add: modelsMetrics_def js_sort_def aggregate_def sample_models_def by_total_desc_def
      totalResponses_model_metrics included_count_def passes_def)

text \<open>
  \<^bold>\<open>Claim C7, closed instance.\<close> The sample dataset has the totals \<open>[1,
  2, 2]\<close>; the two tied models come first, in their original order.
\<close>

theorem ranking_sorted_stable_witness:
  "Suc 0 < length (modelsMetrics sample_models [])
   \<and> map modelName (aggregate sample_models []) =
       [''openai/gpt-4'', ''anthropic/claude'', ''x-ai/grok'']
   \<and> map totalResponses (aggregate sample_models []) = [1, 2, 2]
   \<and> map modelName (modelsMetrics sample_models []) =
       [''anthropic/claude'', ''x-ai/grok'', ''openai/gpt-4'']
   \<and> totalResponses (modelsMetrics sample_models [] ! Suc 0)
       \<le> totalResponses (modelsMetrics sample_models [] ! 0)
   \<and> modelsMetrics sample_models [] ! 2 \<in> set (modelsMetrics sample_models [])
   \<and> totalResponses (modelsMetrics sample_models [] ! 2)
       \<le> bestTotal (modelsMetrics sample_models [])
   \<and> map modelName (filter (\<lambda>m. totalResponses m = 2) (modelsMetrics sample_models [])) =
       [''anthropic/claude'', ''x-ai/grok'']"
proof -
  have h1: "Suc 0 < length (modelsMetrics sample_models [])"
    by (simp add: sample_ranked)
  have h2: "modelsMetrics sample_models [] ! 2 \<in> set (modelsMetrics sample_models [])"
    by (simp add: sample_ranked)
  have n: "map modelName (modelsMetrics sample_models []) =
       [''anthropic/claude'', ''x-ai/grok'', ''openai/gpt-4'']"
    by (simp add: sample_ranked modelName_model_metrics)
  note r = ranking_sorted_stable [of sample_models "[]"]
  from r h1 have a: "totalResponses (modelsMetrics sample_models [] ! Suc 0)
       \<le> totalResponses (modelsMetrics sample_models [] ! 0)" by blast
  from r h2 have b: "totalResponses (modelsMetrics sample_models [] ! 2)
       \<le> bestTotal (modelsMetrics sample_models [])" by blast
  from r have "filter (\<lambda>m. totalResponses m = 2) (modelsMetrics sample_models [])
           = filter (\<lambda>m. totalResponses m = 2) (aggregate sample_models [])" by blast
  then have c: "map modelName (filter (\<lambda>m. totalResponses m = 2) (modelsMetrics sample_models [])) =
       [''anthropic/claude'', ''x-ai/grok'']"
    by (simp add: aggregate_def sample_models_def totalResponses_model_metrics
        included_count_def passes_def modelName_model_metrics)
  from h1 h2 n a b c sample_names sample_totals show ?thesis by simp
qed

text \<open>
  \<^bold>\<open>Claim C9 fails on the code.\<close> For a question with the key
  \<^verbatim>\<open>__proto__\<close> that passes the filter the loop creates the configuration
  in \<^verbatim>\<open>filteredData\<close>, and the assignment that is to store the question
  runs the setter of the accessor \<^verbatim>\<open>__proto__\<close> instead. The response is
  counted, and the configuration is in \<^verbatim>\<open>filteredData\<close> with no question.
\<close>

theorem proto_question_empty_configuration:
  "map (\<lambda>m. (modelName m, totalResponses m, filteredData m))
     (modelsMetrics [(''m'', [(''c'', [(''__proto__'', [sample_response 1])])])] []) =
   [(''m'', 1, [(''c'', [])])]"
  by (simp add: modelsMetrics_def js_sort_def aggregate_def model_metrics_def model_state_def
      param_step_def question_step_def init_state_def Let_def truthy_at_def obj_assign_def
      object_prototype_members_def count_response_def)

lemma modelName_set_modelsMetrics: "modelName ` set (modelsMetrics ds sel) = fst ` set ds"
  by (simp add: set_modelsMetrics image_image modelName_model_metrics)

text \<open>
  \<^bold>\<open>Claim C10.\<close> When no model is selected, or the selected name is no model
  key of the dataset, the drill-down projection is \<^verbatim>\<open>null\<close> and the modal
  shows its "no data" line.
\<close>

theorem drilldown_absent:
  "selectedModelDetail (modelsMetrics ds sel) None = None
   \<and> modalBody (selectedModelDetail (modelsMetrics ds sel) None) = NoData
   \<and> (nm \<notin> fst ` set ds \<longrightarrow>
        selectedModelDetail (modelsMetrics ds sel) (Some nm) = None
        \<and> modalBody (selectedModelDetail (modelsMetrics ds sel) (Some nm)) = NoData)"
proof -
  have "find (\<lambda>m. modelName m = nm) (modelsMetrics ds sel) = None" if "nm \<notin> fst ` set ds"
    using that modelName_set_modelsMetrics [of ds sel] by (auto simp: find_None_iff)
  then show ?thesis
    by (simp add: selectedModelDetail_def modalBody_def)
qed

text \<open>
  \<^bold>\<open>Claim C10, closed instance.\<close> A name that is not a key of the sample
  dataset.
\<close>

theorem drilldown_absent_witness:
  "''meta-llama/llama-3'' \<notin> fst ` set sample_models
   \<and> selectedModelDetail (modelsMetrics sample_models [''Q1'']) (Some ''meta-llama/llama-3'') = None
   \<and> modalBody (selectedModelDetail (modelsMetrics sample_models [''Q1''])
        (Some ''meta-llama/llama-3'')) = NoData"
proof -
  have h: "''meta-llama/llama-3'' \<notin> fst ` set sample_models"
    by (simp add: sample_models_def)
  with drilldown_absent [of sample_models "[''Q1'']" "''meta-llama/llama-3''"]
  show ?thesis by blast
qed

section \<open>Rounding to binary64\<close>

subsection \<open>The binary logarithm\<close>

lemma two_powi_pos [simp]: "(0::rat) < 2 powi e"
  by simp

lemma two_powi_add: "(2::rat) powi (a + b) = 2 powi a * 2 powi b"
  by (simp add: power_int_add)

lemma two_powi_Suc: "(2::rat) powi (a + 1) = 2 * 2 powi a"
  by (simp add: power_int_add)

lemma two_powi_mono: "a \<le> b \<Longrightarrow> (2::rat) powi a \<le> 2 powi b"
  by (rule power_int_increasing) simp_all

lemma two_powi_less: "a < b \<Longrightarrow> (2::rat) powi a < 2 powi b"
  by (rule power_int_strict_increasing) simp_all

lemma bitlen_floor_bounds:
  fixes r :: rat
  assumes "1 \<le> r"
  shows "2 powi (bitlen \<lfloor>r\<rfloor> - 1) \<le> r" and "r < 2 powi (bitlen \<lfloor>r\<rfloor>)"
proof -
  let ?x = "\<lfloor>r\<rfloor>"
  from assms have x: "0 < ?x" by simp
  from bitlen_bounds [OF x] have lo: "2 ^ nat (bitlen ?x - 1) \<le> ?x" and hi: "?x < 2 ^ nat (bitlen ?x)"
    by simp_all
  from x have b1: "1 \<le> bitlen ?x" by (simp add: bitlen_alt_def)
  have "(2::rat) powi (bitlen ?x - 1) = of_int (2 ^ nat (bitlen ?x - 1))"
    using b1 by (simp add: power_int_def)
  also have "\<dots> \<le> of_int ?x" using lo by (simp only: of_int_le_iff)
  also have "\<dots> \<le> r" by simp
  finally show "2 powi (bitlen ?x - 1) \<le> r" .
  from hi have "?x + 1 \<le> 2 ^ nat (bitlen ?x)" by simp
  then have "(of_int (?x + 1) :: rat) \<le> of_int (2 ^ nat (bitlen ?x))" by (simp only: of_int_le_iff)
  moreover have "r < of_int (?x + 1)" by simp linarith
  moreover have "(2::rat) powi (bitlen ?x) = of_int (2 ^ nat (bitlen ?x))"
    using b1 by (simp add: power_int_def)
  ultimately show "r < 2 powi (bitlen ?x)" by simp
qed

lemma ilog2_bounds:
  assumes "0 < r"
  shows "2 powi (ilog2 r) \<le> r \<and> r < 2 powi (ilog2 r + 1)"
proof (cases "1 \<le> r")
  case True
  from bitlen_floor_bounds [OF True] show ?thesis
    using True by (simp add: ilog2_def Let_def)
next
  case False
  let ?k = "bitlen \<lfloor>1 / r\<rfloor>"
  from False assms have i: "1 \<le> 1 / r" by simp
  from bitlen_floor_bounds [OF i] have lo: "2 powi (?k - 1) \<le> 1 / r" and hi: "1 / r < 2 powi ?k"
    by simp_all
  from hi assms have a: "2 powi (- ?k) < r"
    by (simp add: power_int_minus field_simps)
  from lo assms have b: "r \<le> 2 powi (- ?k + 1)"
    by (simp add: power_int_minus power_int_diff field_simps)
  show ?thesis
  proof (cases "2 powi (- ?k + 1) \<le> r")
    case True
    with b have "r = 2 powi (- ?k + 1)" by simp
    moreover have "(2::rat) powi (- ?k + 1) < 2 powi (- ?k + 1 + 1)" by (rule two_powi_less) simp
    ultimately show ?thesis using False True by (simp add: ilog2_def Let_def)
  next
    case F: False
    with a show ?thesis using False by (simp add: ilog2_def Let_def)
  qed
qed

lemma ilog2_unique:
  assumes "2 powi a \<le> r" and "r < 2 powi (a + 1)"
  shows "ilog2 r = a"
proof -
  have r: "0 < r" using assms(1) two_powi_pos [of a] by linarith
  from ilog2_bounds [OF r] have lo: "2 powi (ilog2 r) \<le> r" and hi: "r < 2 powi (ilog2 r + 1)"
    by simp_all
  have "\<not> ilog2 r + 1 \<le> a"
    using two_powi_mono [of "ilog2 r + 1" a] hi assms(1) by linarith
  moreover have "\<not> a + 1 \<le> ilog2 r"
    using two_powi_mono [of "a + 1" "ilog2 r"] lo assms(2) by linarith
  ultimately show ?thesis by linarith
qed


subsection \<open>Rounding to the nearest integer\<close>

lemma round_half_even_of_int [simp]: "round_half_even (of_int n) = n"
  by (simp add: round_half_even_def)

lemma floor_rat_bounds: "of_int \<lfloor>q::rat\<rfloor> \<le> q" "q < of_int \<lfloor>q\<rfloor> + 1"
  by linarith+

lemma round_half_even_cases:
  obtains (down) "of_int (round_half_even q) = (of_int \<lfloor>q\<rfloor> :: rat)" "q - of_int \<lfloor>q\<rfloor> \<le> 1 / 2"
  | (up) "of_int (round_half_even q) = (of_int \<lfloor>q\<rfloor> :: rat) + 1" "1 / 2 \<le> q - of_int \<lfloor>q\<rfloor>"
proof -
  have "(round_half_even q = \<lfloor>q\<rfloor> \<and> q - of_int \<lfloor>q\<rfloor> \<le> 1 / 2)
   \<or> (round_half_even q = \<lfloor>q\<rfloor> + 1 \<and> 1 / 2 \<le> q - of_int \<lfloor>q\<rfloor>)"
    unfolding round_half_even_def Let_def by (simp split: if_splits)
  then show thesis
  proof (elim disjE conjE)
    assume "round_half_even q = \<lfloor>q\<rfloor>" and "q - of_int \<lfloor>q\<rfloor> \<le> 1 / 2"
    then show thesis by (intro down) simp_all
  next
    assume "round_half_even q = \<lfloor>q\<rfloor> + 1" and "1 / 2 \<le> q - of_int \<lfloor>q\<rfloor>"
    then show thesis by (intro up) simp_all
  qed
qed

lemma round_half_even_half: "\<bar>of_int (round_half_even q) - q\<bar> \<le> 1 / 2"
  using floor_rat_bounds [of q] by (cases q rule: round_half_even_cases) linarith+

lemma round_half_even_nearest: "\<bar>of_int (round_half_even q) - q\<bar> \<le> \<bar>of_int n - q\<bar>"
proof (cases "of_int n \<le> q")
  case True
  then have "n \<le> \<lfloor>q\<rfloor>" by (simp add: le_floor_iff)
  then have n: "(of_int n :: rat) \<le> of_int \<lfloor>q\<rfloor>" by (simp only: of_int_le_iff)
  from floor_rat_bounds [of q] n True show ?thesis
    by (cases q rule: round_half_even_cases) linarith+
next
  case False
  then have "q < of_int n" by simp
  then have "\<lfloor>q\<rfloor> < n" by (simp add: floor_less_iff)
  then have "\<lfloor>q\<rfloor> + 1 \<le> n" by simp
  then have "(of_int (\<lfloor>q\<rfloor> + 1) :: rat) \<le> of_int n" by (simp only: of_int_le_iff)
  then have n: "(of_int \<lfloor>q\<rfloor> :: rat) + 1 \<le> of_int n" by simp
  from floor_rat_bounds [of q] n False show ?thesis
    by (cases q rule: round_half_even_cases) linarith+
qed

subsection \<open>The rounded value is a nearest binary64 value\<close>

lemma is_doubleI:
  "v = of_int m * 2 powi e \<Longrightarrow> \<bar>m\<bar> < 2 ^ 53 \<Longrightarrow> - 1074 \<le> e \<Longrightarrow> e \<le> 971 \<Longrightarrow> is_double v"
  unfolding is_double_def by blast

lemma of_int_two_powi:
  "0 \<le> k \<Longrightarrow> (of_int m :: rat) * 2 powi k = of_int (m * 2 ^ nat k)"
  by (simp add: power_int_def)

lemma round_double_unfold:
  "r \<noteq> 0 \<Longrightarrow> round_double r =
     (let v = of_int (round_half_even (r / 2 powi expo r)) * 2 powi expo r
      in if 2 ^ 1024 \<le> v then PosInf else if v \<le> - (2 ^ 1024) then NegInf else Fin v)"
  by (simp add: round_double_def expo_def Let_def)

lemma round_double_Fin_unfold:
  assumes "round_double r = Fin v" and "r \<noteq> 0"
  shows "v = of_int (round_half_even (r / 2 powi expo r)) * 2 powi expo r"
  using assms by (simp add: round_double_unfold Let_def split: if_splits)

lemma expo_ge: "- 1074 \<le> expo r"
  by (simp add: expo_def)

lemma expo_quotient_lower:
  assumes "r \<noteq> 0" and "- 1074 < expo r"
  shows "2 ^ 52 \<le> \<bar>r / 2 powi expo r\<bar>"
proof -
  from assms(2) have e: "expo r = ilog2 \<bar>r\<bar> - 52" by (simp add: expo_def max_def split: if_splits)
  from assms(1) have "0 < \<bar>r\<bar>" by simp
  from ilog2_bounds [OF this] have "2 powi (ilog2 \<bar>r\<bar>) \<le> \<bar>r\<bar>" by simp
  moreover have "(2::rat) powi (ilog2 \<bar>r\<bar>) = 2 ^ 52 * 2 powi expo r"
    using two_powi_add [of 52 "expo r"] by (simp add: e)
  ultimately have "2 ^ 52 * 2 powi expo r \<le> \<bar>r\<bar>" by simp
  then have "2 ^ 52 \<le> \<bar>r\<bar> / 2 powi expo r" by (simp add: field_simps)
  then show ?thesis by (simp add: abs_divide)
qed

lemma expo_quotient_upper:
  assumes "r \<noteq> 0"
  shows "\<bar>r / 2 powi expo r\<bar> < 2 ^ 53"
proof -
  from assms have "0 < \<bar>r\<bar>" by simp
  from ilog2_bounds [OF this] have "\<bar>r\<bar> < 2 powi (ilog2 \<bar>r\<bar> + 1)" by simp
  also have "ilog2 \<bar>r\<bar> + 1 \<le> 53 + expo r" by (simp add: expo_def)
  then have "(2::rat) powi (ilog2 \<bar>r\<bar> + 1) \<le> 2 powi (53 + expo r)" by (rule two_powi_mono)
  also have "(2::rat) powi (53 + expo r) = 2 ^ 53 * 2 powi expo r"
    using two_powi_add [of 53 "expo r"] by simp
  finally have "\<bar>r\<bar> / 2 powi expo r < 2 ^ 53" by (simp add: field_simps)
  then show ?thesis by (simp add: abs_divide)
qed


lemma scaled_abs_le:
  fixes a b r :: rat
  assumes "0 < c" and "\<bar>a / c - r / c\<bar> \<le> \<bar>b / c - r / c\<bar>"
  shows "\<bar>a - r\<bar> \<le> \<bar>b - r\<bar>"
proof -
  have "\<bar>a / c - r / c\<bar> = \<bar>a - r\<bar> / c" "\<bar>b / c - r / c\<bar> = \<bar>b - r\<bar> / c"
    using assms(1) by (simp_all add: diff_divide_distrib [symmetric] abs_divide)
  with assms show ?thesis by (simp add: divide_le_cancel)
qed

lemma round_double_nearest:
  assumes "round_double r = Fin v" and "is_double d"
  shows "\<bar>v - r\<bar> \<le> \<bar>d - r\<bar>"
proof (cases "r = 0")
  case True
  with assms(1) show ?thesis by (simp add: round_double_def)
next
  case False
  let ?e = "expo r"
  let ?c = "(2::rat) powi ?e"
  let ?q = "r / ?c"
  let ?m = "round_half_even ?q"
  have c: "0 < ?c" by simp
  from round_double_Fin_unfold [OF assms(1) False] have v: "v = of_int ?m * ?c" .
  then have vq: "v / ?c = of_int ?m" by simp
  from assms(2) obtain md ed where d: "d = of_int md * 2 powi ed" and md: "\<bar>md\<bar> < 2 ^ 53"
    and ed: "- 1074 \<le> ed" "ed \<le> 971" unfolding is_double_def by blast
  have "\<bar>of_int ?m - ?q\<bar> \<le> \<bar>d / ?c - ?q\<bar>"
  proof (cases "?e \<le> ed")
    case True
    have "d / ?c = of_int md * 2 powi (ed - ?e)"
      by (simp add: d power_int_diff)
    also have "\<dots> = of_int (md * 2 ^ nat (ed - ?e))"
      using True by (simp add: of_int_two_powi)
    finally show ?thesis by (simp only: round_half_even_nearest)
  next
    case F: False
    with ed(1) have big: "- 1074 < ?e" by simp
    from expo_quotient_lower [OF False big] have q52: "2 ^ 52 \<le> \<bar>?q\<bar>" .
    from F have "ed + 1 \<le> ?e" by simp
    then have "(2::rat) powi (ed + 1) \<le> ?c" by (rule two_powi_mono)
    then have p: "2 * 2 powi ed \<le> ?c" by (simp add: two_powi_Suc)
    from md have "\<bar>md\<bar> \<le> 2 ^ 53 - 1" by simp
    then have "(of_int \<bar>md\<bar> :: rat) \<le> of_int (2 ^ 53 - 1)" by (simp only: of_int_le_iff)
    then have "\<bar>of_int md :: rat\<bar> < 2 ^ 53" by simp
    then have "\<bar>d\<bar> < 2 ^ 53 * 2 powi ed"
      by (simp add: d abs_mult)
    also have "\<dots> = 2 ^ 52 * (2 * 2 powi ed)" by simp
    also have "\<dots> \<le> 2 ^ 52 * ?c" using p by (intro mult_left_mono) simp_all
    finally have "\<bar>d\<bar> / ?c < 2 ^ 52" by (simp add: field_simps)
    then have t: "\<bar>d / ?c\<bar> < 2 ^ 52" by (simp add: abs_divide)
    have n1: "\<bar>of_int ?m - ?q\<bar> \<le> \<bar>2 ^ 52 - ?q\<bar>"
      using round_half_even_nearest [of ?q "2 ^ 52"] by simp
    have n2: "\<bar>of_int ?m - ?q\<bar> \<le> \<bar>- (2 ^ 52) - ?q\<bar>"
      using round_half_even_nearest [of ?q "- (2 ^ 52)"] by simp
    show ?thesis
    proof (cases "0 \<le> ?q")
      case True
      with n1 q52 t show ?thesis by linarith
    next
      case False
      with n2 q52 t show ?thesis by linarith
    qed
  qed
  then have "\<bar>v / ?c - r / ?c\<bar> \<le> \<bar>d / ?c - r / ?c\<bar>" by (simp only: vq)
  from scaled_abs_le [OF c this] show ?thesis .
qed

lemma is_double_abs_less: "is_double v \<Longrightarrow> \<bar>v\<bar> < 2 ^ 1024"
proof -
  assume "is_double v"
  then obtain m e where v: "v = of_int m * 2 powi e" and m: "\<bar>m\<bar> < 2 ^ 53"
    and e: "- 1074 \<le> e" "e \<le> 971" unfolding is_double_def by blast
  from m have "\<bar>m\<bar> \<le> 2 ^ 53 - 1" by simp
  then have "(of_int \<bar>m\<bar> :: rat) \<le> of_int (2 ^ 53 - 1)" by (simp only: of_int_le_iff)
  then have "\<bar>of_int m :: rat\<bar> < 2 ^ 53" by simp
  then have "\<bar>v\<bar> < 2 ^ 53 * 2 powi e" by (simp add: v abs_mult)
  also have "(2::rat) powi e \<le> 2 powi 971" using e(2) by (rule two_powi_mono)
  then have "(2::rat) ^ 53 * 2 powi e \<le> 2 ^ 53 * 2 powi 971" by simp
  also have "(2::rat) ^ 53 * 2 powi 971 = 2 ^ 1024" by simp
  finally show ?thesis .
qed

lemma round_double_exact:
  assumes "is_double v"
  shows "round_double v = Fin v"
proof (cases "v = 0")
  case True
  then show ?thesis by (simp add: round_double_def)
next
  case False
  from assms obtain m e where v: "v = of_int m * 2 powi e" and m: "\<bar>m\<bar> < 2 ^ 53"
    and e: "- 1074 \<le> e" "e \<le> 971" unfolding is_double_def by blast
  have le: "expo v \<le> e"
  proof -
    from m have "\<bar>m\<bar> \<le> 2 ^ 53 - 1" by simp
    then have "(of_int \<bar>m\<bar> :: rat) \<le> of_int (2 ^ 53 - 1)" by (simp only: of_int_le_iff)
    then have "\<bar>of_int m :: rat\<bar> < 2 ^ 53" by simp
    then have "\<bar>v\<bar> < 2 ^ 53 * 2 powi e" by (simp add: v abs_mult)
    also have "\<dots> = 2 powi (53 + e)" using two_powi_add [of 53 e] by simp
    finally have up: "\<bar>v\<bar> < 2 powi (53 + e)" .
    from False have "0 < \<bar>v\<bar>" by simp
    from ilog2_bounds [OF this] have "2 powi (ilog2 \<bar>v\<bar>) \<le> \<bar>v\<bar>" by simp
    with up have "(2::rat) powi (ilog2 \<bar>v\<bar>) < 2 powi (53 + e)" by linarith
    then have "ilog2 \<bar>v\<bar> < 53 + e"
      using two_powi_mono [of "53 + e" "ilog2 \<bar>v\<bar>"] by linarith
    with e(1) show ?thesis by (simp add: expo_def)
  qed
  have "v / 2 powi expo v = of_int m * 2 powi (e - expo v)"
    by (simp add: v power_int_diff)
  also have "\<dots> = of_int (m * 2 ^ nat (e - expo v))"
    using le by (simp add: of_int_two_powi)
  finally have eq: "v / 2 powi expo v = of_int (m * 2 ^ nat (e - expo v))" .
  then have "of_int (round_half_even (v / 2 powi expo v)) = v / 2 powi expo v"
    by (simp only: round_half_even_of_int)
  then have "of_int (round_half_even (v / 2 powi expo v)) * 2 powi expo v = v"
    by simp
  moreover from is_double_abs_less [OF assms] have "\<not> 2 ^ 1024 \<le> v" "\<not> v \<le> - (2 ^ 1024)"
    by linarith+
  ultimately show ?thesis using False by (simp add: round_double_unfold Let_def)
qed

lemma round_double_le:
  assumes "round_double r = Fin v" and "is_double b" and "r \<le> b"
  shows "v \<le> b"
  using round_double_nearest [OF assms(1,2)] assms(3) by linarith

lemma round_double_ge:
  assumes "round_double r = Fin v" and "is_double b" and "b \<le> r"
  shows "b \<le> v"
  using round_double_nearest [OF assms(1,2)] assms(3) by linarith

lemma round_double_finite:
  assumes "\<bar>r\<bar> < 2 ^ 1023"
  shows "\<exists>v. round_double r = Fin v"
proof (cases "r = 0")
  case True
  then show ?thesis by (simp add: round_double_def)
next
  case False
  let ?e = "expo r"
  let ?q = "r / 2 powi ?e"
  let ?m = "round_half_even ?q"
  have "\<bar>of_int ?m :: rat\<bar> \<le> \<bar>?q\<bar> + 1 / 2"
    using round_half_even_half [of ?q] by linarith
  with expo_quotient_upper [OF False] have "\<bar>of_int ?m :: rat\<bar> < 2 ^ 53 + 1 / 2" by linarith
  then have "\<bar>of_int ?m :: rat\<bar> < of_int (2 ^ 53 + 1)" by simp
  then have "(of_int \<bar>?m\<bar> :: rat) < of_int (2 ^ 53 + 1)" by simp
  then have "\<bar>?m\<bar> < 2 ^ 53 + 1" by (simp only: of_int_less_iff)
  then have "\<bar>?m\<bar> \<le> 2 ^ 53" by simp
  then have "(of_int \<bar>?m\<bar> :: rat) \<le> of_int (2 ^ 53)" by (simp only: of_int_le_iff)
  then have m: "\<bar>of_int ?m :: rat\<bar> \<le> 2 ^ 53" by simp
  have e: "?e \<le> 970"
  proof -
    from False have "0 < \<bar>r\<bar>" by simp
    from ilog2_bounds [OF this] have "2 powi (ilog2 \<bar>r\<bar>) \<le> \<bar>r\<bar>" by simp
    with assms have "(2::rat) powi (ilog2 \<bar>r\<bar>) < 2 powi 1023" by simp
    then have "ilog2 \<bar>r\<bar> < 1023"
      using two_powi_mono [of 1023 "ilog2 \<bar>r\<bar>"] by linarith
    then show ?thesis by (simp add: expo_def)
  qed
  then have "(2::rat) powi ?e \<le> 2 powi 970" by (rule two_powi_mono)
  with m have "\<bar>of_int ?m :: rat\<bar> * 2 powi ?e \<le> 2 ^ 53 * 2 powi 970"
    by (intro mult_mono) simp_all
  also have "(2::rat) ^ 53 * 2 powi 970 < 2 ^ 1024" by simp
  finally have "\<bar>of_int ?m * 2 powi ?e :: rat\<bar> < 2 ^ 1024" by (simp add: abs_mult)
  then have "\<not> (2::rat) ^ 1024 \<le> of_int ?m * 2 powi ?e" "\<not> of_int ?m * 2 powi ?e \<le> - ((2::rat) ^ 1024)"
    by linarith+
  then show ?thesis using False by (simp add: round_double_unfold Let_def)
qed


text \<open>Every finite result of the rounding is a binary64 value.\<close>

lemma round_half_even_abs_le:
  assumes "\<bar>q\<bar> \<le> of_int N"
  shows "\<bar>round_half_even q\<bar> \<le> N"
proof -
  have u: "\<bar>of_int (round_half_even q) - q\<bar> \<le> \<bar>of_int N - q\<bar>"
    by (rule round_half_even_nearest)
  have l: "\<bar>of_int (round_half_even q) - q\<bar> \<le> \<bar>of_int (- N) - q\<bar>"
    by (rule round_half_even_nearest)
  from u l assms have "\<bar>(of_int (round_half_even q) :: rat)\<bar> \<le> of_int N" by simp
  then have "(of_int \<bar>round_half_even q\<bar> :: rat) \<le> of_int N" by simp
  then show ?thesis by (simp only: of_int_le_iff)
qed

lemma round_half_even_abs_ge:
  assumes "of_int N \<le> \<bar>q\<bar>" and "0 \<le> N"
  shows "N \<le> \<bar>round_half_even q\<bar>"
proof -
  have u: "\<bar>of_int (round_half_even q) - q\<bar> \<le> \<bar>of_int N - q\<bar>"
    by (rule round_half_even_nearest)
  have l: "\<bar>of_int (round_half_even q) - q\<bar> \<le> \<bar>of_int (- N) - q\<bar>"
    by (rule round_half_even_nearest)
  have "(0::rat) \<le> of_int N" using assms(2) by simp
  with u l assms(1) have "of_int N \<le> \<bar>(of_int (round_half_even q) :: rat)\<bar>" by simp
  then have "(of_int N :: rat) \<le> of_int \<bar>round_half_even q\<bar>" by simp
  then show ?thesis by (simp only: of_int_le_iff)
qed

lemma round_double_is_double:
  assumes "round_double r = Fin v"
  shows "is_double v"
proof (cases "r = 0")
  case True
  with assms have "v = 0" by (simp add: round_double_def)
  then show ?thesis by (intro is_doubleI [of _ 0 0]) simp_all
next
  case False
  let ?e = "expo r"
  let ?q = "r / 2 powi ?e"
  let ?m = "round_half_even ?q"
  from round_double_Fin_unfold [OF assms False] have v: "v = of_int ?m * 2 powi ?e" .
  from assms False have fin: "\<bar>of_int ?m * 2 powi ?e :: rat\<bar> < 2 ^ 1024"
    by (simp add: round_double_unfold Let_def abs_less_iff split: if_splits)
  have "\<bar>?q\<bar> \<le> of_int (2 ^ 53)" using expo_quotient_upper [OF False] by simp
  from round_half_even_abs_le [OF this] have m53: "\<bar>?m\<bar> \<le> 2 ^ 53" .
  have fin': "\<bar>(of_int ?m :: rat)\<bar> * 2 powi ?e < 2 powi 1024" using fin by (simp add: abs_mult)
  show ?thesis
  proof (cases "\<bar>?m\<bar> = 2 ^ 53")
    case True
    then have "\<bar>(of_int ?m :: rat)\<bar> = 2 ^ 53" by (metis of_int_abs of_int_numeral of_int_power)
    with fin' have "(2::rat) powi (53 + ?e) < 2 powi 1024" by (simp add: two_powi_add)
    then have e: "?e \<le> 970" using two_powi_mono [of 1024 "53 + ?e"] by linarith
    from True have "?m = 2 ^ 53 \<or> ?m = - (2 ^ 53)" by linarith
    then show ?thesis
    proof
      assume "?m = 2 ^ 53"
      then have "v = of_int (2 ^ 52) * 2 powi (?e + 1)" by (simp add: v two_powi_Suc)
      then show ?thesis using e expo_ge [of r] by (intro is_doubleI [of _ "2 ^ 52" "?e + 1"]) simp_all
    next
      assume "?m = - (2 ^ 53)"
      then have "v = of_int (- (2 ^ 52)) * 2 powi (?e + 1)" by (simp add: v two_powi_Suc)
      then show ?thesis using e expo_ge [of r] by (intro is_doubleI [of _ "- (2 ^ 52)" "?e + 1"]) simp_all
    qed
  next
    case F: False
    with m53 have m: "\<bar>?m\<bar> < 2 ^ 53" by simp
    have e: "?e \<le> 971"
    proof (rule ccontr)
      assume "\<not> ?e \<le> 971"
      then have big: "972 \<le> ?e" by simp
      then have "- 1074 < ?e" by simp
      from expo_quotient_lower [OF False this] have "of_int (2 ^ 52) \<le> \<bar>?q\<bar>" by simp
      from round_half_even_abs_ge [OF this] have "2 ^ 52 \<le> \<bar>?m\<bar>" by simp
      then have "(of_int (2 ^ 52) :: rat) \<le> of_int \<bar>?m\<bar>" by (simp only: of_int_le_iff)
      then have a: "(2 ^ 52 :: rat) \<le> \<bar>of_int ?m\<bar>" by simp
      from big have b: "(2::rat) powi 972 \<le> 2 powi ?e" by (rule two_powi_mono)
      have "(2::rat) powi 1024 = 2 ^ 52 * 2 powi 972" by simp
      also have "\<dots> \<le> \<bar>of_int ?m\<bar> * 2 powi ?e" using a b by (intro mult_mono) simp_all
      finally show False using fin' by simp
    qed
    from v m e expo_ge [of r] show ?thesis by (intro is_doubleI [of _ ?m ?e])
  qed
qed

section \<open>Decimal digits\<close>

lemma digits_small: "n < 10 \<Longrightarrow> digits n = [digit_char n]"
  by (subst digits.simps) simp

lemma digits_step: "10 \<le> n \<Longrightarrow> digits n = digits (n div 10) @ [digit_char (n mod 10)]"
  by (subst digits.simps) simp

lemma digits_times10: "0 < a \<Longrightarrow> digits (10 * a) = digits a @ [digit_char 0]"
  by (subst digits_step) simp_all

lemma digits_times_power:
  "0 < a \<Longrightarrow> digits (a * 10 ^ z) = digits a @ replicate z (digit_char 0)"
proof (induction z)
  case 0
  then show ?case by simp
next
  case (Suc z)
  have "digits (a * 10 ^ Suc z) = digits (10 * (a * 10 ^ z))" by (simp add: mult_ac)
  also have "\<dots> = digits (a * 10 ^ z) @ [digit_char 0]"
    using Suc.prems by (intro digits_times10) simp
  finally show ?case using Suc by (simp add: replicate_append_same)
qed

lemma digit_char_0: "digit_char 0 = CHR ''0''"
  by (simp add: digit_char_def char_of_def)

lemma length_digits_bounds:
  "0 < n \<Longrightarrow> 10 ^ (length (digits n) - 1) \<le> n \<and> n < 10 ^ length (digits n)"
proof (induction n rule: digits.induct)
  case (1 n)
  show ?case
  proof (cases "n < 10")
    case True
    with 1 show ?thesis by (simp add: digits_small)
  next
    case False
    then have ge: "10 \<le> n" by simp
    then have pos: "0 < n div 10" by simp
    from 1(1) [OF False pos] have ih: "10 ^ (length (digits (n div 10)) - 1) \<le> n div 10"
      "n div 10 < 10 ^ length (digits (n div 10))" by simp_all
    have len: "length (digits n) = Suc (length (digits (n div 10)))"
      by (simp add: digits_step [OF ge])
    have l1: "0 < length (digits (n div 10))"
      by (subst digits.simps) simp
    from ih(1) have "10 * 10 ^ (length (digits (n div 10)) - 1) \<le> 10 * (n div 10)" by simp
    also have "\<dots> \<le> n" by simp
    finally have a: "10 ^ (length (digits n) - 1) \<le> n"
      using l1 by (simp add: len power_Suc [symmetric] del: power_Suc)
    from ih(2) have "n div 10 + 1 \<le> 10 ^ length (digits (n div 10))" by simp
    then have "10 * (n div 10 + 1) \<le> 10 * 10 ^ length (digits (n div 10))" by simp
    moreover have "n < 10 * (n div 10 + 1)" by simp
    ultimately have b: "n < 10 ^ length (digits n)" by (simp add: len)
    from a b show ?thesis by simp
  qed
qed

lemma length_digits_pos: "0 < length (digits n)"
  by (subst digits.simps) simp


section \<open>The string of an integral Number\<close>

lemma is_double_of_int:
  assumes "\<bar>n\<bar> \<le> 2 ^ 53"
  shows "is_double (of_int n)"
proof (cases "\<bar>n\<bar> < 2 ^ 53")
  case True
  then show ?thesis by (intro is_doubleI [of _ n 0]) simp_all
next
  case False
  with assms have "n = 2 ^ 53 \<or> n = - (2 ^ 53)" by linarith
  then show ?thesis
  proof
    assume "n = 2 ^ 53"
    then show ?thesis by (intro is_doubleI [of _ "2 ^ 52" 1]) simp_all
  next
    assume "n = - (2 ^ 53)"
    then show ?thesis by (intro is_doubleI [of _ "- (2 ^ 52)" 1]) simp_all
  qed
qed

lemma round_double_int_neq:
  assumes "\<bar>j\<bar> < 2 ^ 53" and "c \<noteq> j"
  shows "round_double (of_int c) \<noteq> Fin (of_int j)"
proof
  assume eq: "round_double (of_int c) = Fin (of_int j)"
  show False
  proof (cases "j < c")
    case True
    from assms(1) have "is_double (of_int (j + 1))" by (intro is_double_of_int) simp
    from round_double_nearest [OF eq this]
    have "\<bar>(of_int j :: rat) - of_int c\<bar> \<le> \<bar>of_int (j + 1) - of_int c\<bar>" .
    then have "\<bar>j - c\<bar> \<le> \<bar>j + 1 - c\<bar>"
      by (simp only: of_int_diff [symmetric] of_int_abs [symmetric] of_int_le_iff)
    with True show False by simp
  next
    case False
    with assms(2) have lt: "c < j" by simp
    from assms(1) have "is_double (of_int (j - 1))" by (intro is_double_of_int) simp
    from round_double_nearest [OF eq this]
    have "\<bar>(of_int j :: rat) - of_int c\<bar> \<le> \<bar>of_int (j - 1) - of_int c\<bar>" .
    then have "\<bar>j - c\<bar> \<le> \<bar>j - 1 - c\<bar>"
      by (simp only: of_int_diff [symmetric] of_int_abs [symmetric] of_int_le_iff)
    with lt show False by simp
  qed
qed

lemma floor_int_div_power:
  "\<lfloor>(of_int j :: rat) / 10 powi int k\<rfloor> = j div 10 ^ k"
proof -
  have "(of_int j :: rat) / 10 powi int k = of_int j / of_int (10 ^ k)" by simp
  then show ?thesis by (simp only: floor_divide_of_int_eq)
qed

lemma of_int_times_ten_powi:
  "(of_int s :: rat) * 10 powi int k = of_int (s * 10 ^ k)"
  by simp

lemma shortest_from_int:
  assumes "0 < j" and "j < 2 ^ 53" and "10 ^ z dvd j" and "\<not> 10 ^ Suc z dvd j" and "z \<le> k"
  shows "shortest_from (int k) (of_int j) = (j div 10 ^ z, int z)"
  using assms(5)
proof (induction k rule: dec_induct)
  case base
  have j: "\<bar>j\<bar> < 2 ^ 53" using assms(1,2) by simp
  have s1: "\<lfloor>(of_int j :: rat) / 10 powi int z\<rfloor> = j div 10 ^ z" by (rule floor_int_div_power)
  have e1: "j div 10 ^ z * 10 ^ z = j" using assms(3) by simp
  have e2: "(j div 10 ^ z + 1) * 10 ^ z = j + 10 ^ z" using e1 by (simp add: algebra_simps)
  have c1: "(of_int (j div 10 ^ z) :: rat) * 10 powi int z = of_int j"
    by (simp only: of_int_times_ten_powi e1)
  have c2: "(of_int (j div 10 ^ z + 1) :: rat) * 10 powi int z = of_int (j + 10 ^ z)"
    by (simp only: of_int_times_ten_powi e2)
  have ok1: "round_double (of_int j) = Fin (of_int j)"
    using j by (intro round_double_exact is_double_of_int) simp
  have ok2: "round_double (of_int (j + 10 ^ z)) \<noteq> Fin (of_int j)"
    using j by (intro round_double_int_neq) simp_all
  show ?case
    by (subst shortest_from.simps) (simp only: Let_def s1 c1 c2 ok1 ok2 simp_thms if_True if_False)
next
  case (step k)
  have j: "\<bar>j\<bar> < 2 ^ 53" using assms(1,2) by simp
  have nd: "\<not> 10 ^ Suc k dvd j"
  proof
    assume "10 ^ Suc k dvd j"
    moreover have "(10::int) ^ Suc z dvd 10 ^ Suc k" using step(1) by (intro le_imp_power_dvd) simp
    ultimately have "10 ^ Suc z dvd j" by (rule dvd_trans [rotated])
    with assms(4) show False by simp
  qed
  let ?s = "j div 10 ^ Suc k"
  have s1: "\<lfloor>(of_int j :: rat) / 10 powi int (Suc k)\<rfloor> = ?s" by (rule floor_int_div_power)
  have n1: "?s * 10 ^ Suc k \<noteq> j" using nd by (metis dvd_triv_right)
  have n2: "(?s + 1) * 10 ^ Suc k \<noteq> j" using nd by (metis dvd_triv_right)
  have ok1: "round_double (of_int (?s * 10 ^ Suc k)) \<noteq> Fin (of_int j)"
    using j n1 by (intro round_double_int_neq)
  have ok2: "round_double (of_int ((?s + 1) * 10 ^ Suc k)) \<noteq> Fin (of_int j)"
    using j n2 by (intro round_double_int_neq)
  have big: "\<not> int (Suc k) \<le> - 1100" by simp
  have "shortest_from (int (Suc k)) (of_int j) = shortest_from (int (Suc k) - 1) (of_int j)"
    by (subst shortest_from.simps)
       (simp only: Let_def s1 of_int_times_ten_powi ok1 ok2 big simp_thms if_True if_False)
  also have "int (Suc k) - 1 = int k" by simp
  finally show ?case using step by simp
qed


lemma ex_trailing_zeros:
  assumes "0 < (j::int)"
  shows "\<exists>z. 10 ^ z dvd j \<and> \<not> 10 ^ Suc z dvd j"
proof (rule ccontr)
  assume "\<not> ?thesis"
  then have step: "\<And>z. 10 ^ z dvd j \<Longrightarrow> 10 ^ Suc z dvd j" by blast
  have all: "10 ^ z dvd j" for z
    by (induction z) (simp, rule step)
  from length_digits_bounds [OF assms] have "j < 10 ^ length (digits j)" by simp
  moreover from all [of "length (digits j)"] assms have "10 ^ length (digits j) \<le> j"
    by (rule zdvd_imp_le)
  ultimately show False by simp
qed

lemma length_digits_le:
  assumes "0 < n" and "n < 10 ^ k"
  shows "length (digits n) \<le> k"
proof (rule ccontr)
  assume "\<not> ?thesis"
  then have "k \<le> length (digits n) - 1" by simp
  then have "(10::int) ^ k \<le> 10 ^ (length (digits n) - 1)" by (intro power_increasing) simp_all
  moreover from length_digits_bounds [OF assms(1)] have "10 ^ (length (digits n) - 1) \<le> n" ..
  ultimately show False using assms(2) by linarith
qed

lemma pos_toString_int:
  assumes "0 < j" and "j < 2 ^ 53"
  shows "pos_toString (of_int j) = digits j"
proof -
  from ex_trailing_zeros [OF assms(1)] obtain z where z: "10 ^ z dvd j" "\<not> 10 ^ Suc z dvd j"
    by blast
  let ?a = "j div 10 ^ z"
  have a: "0 < ?a" using assms(1) z(1) by (simp add: pos_imp_zdiv_pos_iff zdvd_imp_le)
  have ja: "j = ?a * 10 ^ z" using z(1) by simp
  have dj: "digits j = digits ?a @ replicate z CHR ''0''"
    using digits_times_power [OF a, of z] ja by (simp add: digit_char_0)
  then have len: "length (digits j) = length (digits ?a) + z" by simp
  with length_digits_pos [of ?a] have zk: "z \<le> length (digits j)" by simp
  have "j < 10 ^ 16" using assms(2) by simp
  from length_digits_le [OF assms(1) this] have l16: "length (digits j) \<le> 16" .
  have sp: "shortest_from (int (length (digits \<lceil>of_int j :: rat\<rceil>))) (of_int j) = (?a, int z)"
    using shortest_from_int [OF assms z zk] by simp
  show ?thesis
    unfolding pos_toString_def sp Let_def fst_conv snd_conv
    using l16 by (simp add: len dj)
qed

lemma number_toString_int:
  assumes "\<bar>j\<bar> < 2 ^ 53"
  shows "number_toString (Fin (of_int j)) = (if j < 0 then ''-'' @ digits (- j) else digits j)"
proof -
  consider "j = 0" | "0 < j" | "j < 0" by linarith
  then show ?thesis
  proof cases
    case 1
    then show ?thesis by (simp add: digits_small digit_char_0)
  next
    case 2
    with assms pos_toString_int [of j] show ?thesis by simp
  next
    case 3
    with assms pos_toString_int [of "- j"] show ?thesis by simp
  qed
qed


section \<open>Reading back the output of toFixed\<close>

lemma of_char_digit_char: "0 \<le> d \<Longrightarrow> d \<le> 9 \<Longrightarrow> (of_char (digit_char d) :: int) = 48 + d"
  by (simp add: digit_char_def)

lemma is_digit_digit_char: "0 \<le> d \<Longrightarrow> d \<le> 9 \<Longrightarrow> is_digit (digit_char d)"
  by (simp add: is_digit_def of_char_digit_char)

lemma not_space_digit_char: "0 \<le> d \<Longrightarrow> d \<le> 9 \<Longrightarrow> \<not> is_space (digit_char d)"
  by (simp add: is_space_def of_char_digit_char)

lemma digit_char_neq:
  assumes "0 \<le> d" and "d \<le> 9"
  shows "digit_char d \<noteq> CHR ''-''" "digit_char d \<noteq> CHR ''+''" "digit_char d \<noteq> CHR ''I''"
proof -
  have "(of_char (digit_char d) :: int) \<noteq> of_char CHR ''-''"
    "(of_char (digit_char d) :: int) \<noteq> of_char CHR ''+''"
    "(of_char (digit_char d) :: int) \<noteq> of_char CHR ''I''"
    using assms by (simp_all add: of_char_digit_char)
  then show "digit_char d \<noteq> CHR ''-''" "digit_char d \<noteq> CHR ''+''" "digit_char d \<noteq> CHR ''I''"
    by auto
qed

lemma digits_all_digit: "0 \<le> n \<Longrightarrow> \<forall>c\<in>set (digits n). is_digit c"
proof (induction n rule: digits.induct)
  case (1 n)
  show ?case
  proof (cases "n < 10")
    case True
    with 1(2) show ?thesis by (simp add: digits_small is_digit_digit_char)
  next
    case False
    then have ge: "10 \<le> n" by simp
    from 1(1) [OF False] ge have "\<forall>c\<in>set (digits (n div 10)). is_digit c" by simp
    moreover have "is_digit (digit_char (n mod 10))" by (intro is_digit_digit_char) simp_all
    ultimately show ?thesis by (simp add: digits_step [OF ge])
  qed
qed

lemma digits_hd:
  assumes "0 \<le> n"
  obtains c cs where "digits n = c # cs" and "is_digit c" and "\<not> is_space c"
    and "c \<noteq> CHR ''-''" and "c \<noteq> CHR ''+''" and "c \<noteq> CHR ''I''"
  using assms
proof (induction n arbitrary: thesis rule: digits.induct)
  case (1 n)
  show ?case
  proof (cases "n < 10")
    case True
    with 1(3) have "digits n = digit_char n # []" "0 \<le> n" "n \<le> 9" by (simp_all add: digits_small)
    then show ?thesis
      using 1(2) is_digit_digit_char not_space_digit_char digit_char_neq by blast
  next
    case False
    then have ge: "10 \<le> n" by simp
    then have "0 \<le> n div 10" by simp
    from 1(1) [OF False _ this] obtain c cs where c: "digits (n div 10) = c # cs" "is_digit c"
      "\<not> is_space c" "c \<noteq> CHR ''-''" "c \<noteq> CHR ''+''" "c \<noteq> CHR ''I''" by blast
    then have "digits n = c # (cs @ [digit_char (n mod 10)])" by (simp add: digits_step [OF ge])
    with c show ?thesis using 1(2) by blast
  qed
qed

lemma digits_val_snoc: "digits_val (xs @ [c]) = 10 * digits_val xs + (of_char c - 48)"
  by (simp add: digits_val_def)

lemma digits_val_digits: "0 \<le> n \<Longrightarrow> digits_val (digits n) = n"
proof (induction n rule: digits.induct)
  case (1 n)
  show ?case
  proof (cases "n < 10")
    case True
    with 1(2) show ?thesis
      by (simp add: digits_small digits_val_def of_char_digit_char)
  next
    case False
    then have ge: "10 \<le> n" by simp
    from 1(1) [OF False] ge have "digits_val (digits (n div 10)) = n div 10" by simp
    then show ?thesis
      by (simp add: digits_step [OF ge] digits_val_snoc of_char_digit_char)
  qed
qed

lemma not_digit_point: "\<not> is_digit CHR ''.''"
  by (simp add: is_digit_def)

lemma parseFloat_tenths:
  assumes "0 \<le> a" and "0 \<le> b" and "b \<le> 9"
  shows "parseFloat (digits a @ ''.'' @ [digit_char b]) = round_double (of_int (10 * a + b) / 10)"
proof -
  from digits_hd [OF assms(1)] obtain c cs where c: "digits a = c # cs" "is_digit c"
    "\<not> is_space c" "c \<noteq> CHR ''-''" "c \<noteq> CHR ''+''" "c \<noteq> CHR ''I''" by blast
  let ?s = "digits a @ ''.'' @ [digit_char b]"
  have all: "\<forall>x\<in>set (digits a). is_digit x" by (rule digits_all_digit [OF assms(1)])
  have db: "is_digit (digit_char b)" by (rule is_digit_digit_char [OF assms(2,3)])
  have tw: "takeWhile is_digit ?s = digits a"
    using all by (simp add: takeWhile_append2 not_digit_point)
  have dw: "dropWhile is_digit ?s = ''.'' @ [digit_char b]"
    using all by (simp add: dropWhile_append2 not_digit_point)
  have inf: "take 8 ?s \<noteq> ''Infinity''" using c by simp
  have pu: "parse_unsigned ?s = round_double (of_int (10 * a + b) / 10)"
    unfolding parse_unsigned_def Let_def tw dw using inf db assms
    by (simp add: digits_val_snoc digits_val_digits of_char_digit_char power_int_minus
        del: of_int_add of_int_mult)
  have "dropWhile is_space ?s = ?s" using c by simp
  then have "parseFloat ?s = parse_unsigned ?s"
    unfolding parseFloat_def using c by simp
  with pu show ?thesis by simp
qed

lemma toFixed_one:
  assumes "0 \<le> d" and "d < 10 ^ 21"
  shows "toFixed (Fin d) 1 =
           digits (\<lfloor>d * 10 + 1 / 2\<rfloor> div 10) @ ''.'' @ [digit_char (\<lfloor>d * 10 + 1 / 2\<rfloor> mod 10)]"
proof -
  let ?n = "\<lfloor>d * 10 + 1 / 2\<rfloor>"
  from assms(1) have n0: "0 \<le> ?n" by simp
  show ?thesis
  proof (cases "?n < 10")
    case True
    then have "digits ?n = [digit_char ?n]" by (rule digits_small)
    moreover from True n0 have "?n div 10 = 0" "?n mod 10 = ?n" by simp_all
    ultimately show ?thesis
      using assms by (simp add: toFixed_def Let_def digits_small digit_char_0)
  next
    case False
    then have ge: "10 \<le> ?n" by simp
    have dn: "digits ?n = digits (?n div 10) @ [digit_char (?n mod 10)]" by (rule digits_step [OF ge])
    have "\<not> length (digits ?n) \<le> 1" using length_digits_pos [of "?n div 10"] by (simp add: dn)
    then show ?thesis
      using assms by (simp add: toFixed_def Let_def) (simp add: dn)
  qed
qed


section \<open>The string of a Number with one fraction digit\<close>


lemma tenths_near:
  assumes "0 \<le> n" and "n \<le> 10 ^ 15" and "round_double (of_int n / 10) = Fin v"
  shows "\<bar>v - of_int n / 10\<bar> \<le> 1 / 32"
proof -
  define r where "r = (of_int n :: rat) / 10"
  define M where "M = round_half_even (16 * r)"
  have h: "\<bar>of_int M - 16 * r\<bar> \<le> 1 / 2" unfolding M_def by (rule round_half_even_half)
  have "(of_int n :: rat) \<le> of_int (10 ^ 15)" using assms(2) by (simp only: of_int_le_iff)
  then have r: "r \<le> 100000000000000" by (simp add: r_def)
  have "(0::rat) \<le> of_int n" using assms(1) by simp
  then have r0: "0 \<le> r" by (simp add: r_def)
  from h r r0 have "\<bar>of_int M :: rat\<bar> < 9007199254740992" by linarith
  then have "(of_int \<bar>M\<bar> :: rat) < of_int (2 ^ 53)" by simp
  then have M: "\<bar>M\<bar> < 2 ^ 53" by (simp only: of_int_less_iff)
  have d: "is_double (of_int M * 2 powi (- 4))"
    using M by (intro is_doubleI [of _ M "- 4"]) simp_all
  have "(of_int M :: rat) * 2 powi (- 4) = of_int M / 16" by (simp add: power_int_minus)
  with h have "\<bar>of_int M * 2 powi (- 4) - r\<bar> \<le> 1 / 32" by linarith
  with round_double_nearest [OF assms(3) [folded r_def] d] show ?thesis
    unfolding r_def by linarith
qed

lemma tenths_not_int:
  assumes "0 \<le> n" and "n \<le> 10 ^ 15" and "n mod 10 \<noteq> 0"
    and "round_double (of_int n / 10) = Fin v"
  shows "round_double (of_int c) \<noteq> Fin v"
proof
  assume eq: "round_double (of_int c) = Fin v"
  define r where "r = (of_int n :: rat) / 10"
  from tenths_near [OF assms(1,2,4)] have near: "\<bar>v - r\<bar> \<le> 1 / 32" by (simp only: r_def)
  have "(of_int n :: rat) \<le> of_int (10 ^ 15)" using assms(2) by (simp only: of_int_le_iff)
  then have r: "r \<le> 100000000000000" by (simp add: r_def)
  have "(0::rat) \<le> of_int n" using assms(1) by simp
  then have r0: "0 \<le> r" by (simp add: r_def)
  have vc: "v = of_int c"
  proof (cases "\<bar>c\<bar> \<le> 2 ^ 53")
    case True
    from round_double_exact [OF is_double_of_int [OF True]] eq show ?thesis by simp
  next
    case False
    have p: "is_double 9007199254740992" using is_double_of_int [of "2 ^ 53"] by simp
    have m: "is_double (- 9007199254740992)" using is_double_of_int [of "- (2 ^ 53)"] by simp
    from False have "2 ^ 53 < c \<or> c < - (2 ^ 53)" by linarith
    then show ?thesis
    proof
      assume "2 ^ 53 < c"
      then have "(of_int (2 ^ 53) :: rat) < of_int c" by (simp only: of_int_less_iff)
      then have "(9007199254740992 :: rat) < of_int c" by simp
      with round_double_nearest [OF eq p] near r r0 show ?thesis by linarith
    next
      assume "c < - (2 ^ 53)"
      then have "(of_int c :: rat) < of_int (- (2 ^ 53))" by (simp only: of_int_less_iff)
      then have "(of_int c :: rat) < - 9007199254740992" by simp
      with round_double_nearest [OF eq m] near r r0 show ?thesis by linarith
    qed
  qed
  have "10 * c - n \<noteq> 0" using assms(3) by presburger
  then have "1 \<le> \<bar>10 * c - n\<bar>" by simp
  then have "(of_int 1 :: rat) \<le> of_int \<bar>10 * c - n\<bar>" by (simp only: of_int_le_iff)
  then have "1 \<le> \<bar>10 * (of_int c :: rat) - of_int n\<bar>" by simp
  then have "1 / 10 \<le> \<bar>(of_int c :: rat) - r\<bar>" unfolding r_def by linarith
  with near vc show False by linarith
qed

lemma shortest_from_tenths_skip:
  assumes "0 \<le> n" and "n \<le> 10 ^ 15" and "n mod 10 \<noteq> 0"
    and "round_double (of_int n / 10) = Fin v"
  shows "shortest_from (int k) v = shortest_from (- 1) v"
proof (induction k)
  case 0
  have ok: "round_double (of_int s * 10 powi int 0) \<noteq> Fin v" for s
    using tenths_not_int [OF assms, of s] by simp
  have big: "\<not> int 0 \<le> - 1100" by simp
  have "shortest_from (int 0) v = shortest_from (int 0 - 1) v"
    by (subst shortest_from.simps) (simp only: Let_def ok big simp_thms if_True if_False)
  then show ?case by simp
next
  case (Suc k)
  have ok: "round_double (of_int s * 10 powi int (Suc k)) \<noteq> Fin v" for s
    unfolding of_int_times_ten_powi by (rule tenths_not_int [OF assms])
  have big: "\<not> int (Suc k) \<le> - 1100" by simp
  have "shortest_from (int (Suc k)) v = shortest_from (int (Suc k) - 1) v"
    by (subst shortest_from.simps) (simp only: Let_def ok big simp_thms if_True if_False)
  also have "int (Suc k) - 1 = int k" by simp
  finally show ?case using Suc by simp
qed

lemma closer_above:
  fixes v N :: rat
  assumes "N - 1 / 2 < 10 * v"
  shows "\<not> v - (N - 1) / 10 < N / 10 - v" and "N / 10 - v < v - (N - 1) / 10"
  using assms by (simp_all add: field_simps)

lemma closer_below:
  fixes v N :: rat
  assumes "10 * v < N + 1 / 2"
  shows "v - N / 10 < (N + 1) / 10 - v"
  using assms by (simp add: field_simps)

lemma shortest_from_tenths:
  assumes "0 \<le> n" and "n \<le> 10 ^ 15" and "n mod 10 \<noteq> 0"
    and "round_double (of_int n / 10) = Fin v"
  shows "shortest_from (- 1) v = (n, - 1)"
proof -
  from tenths_near [OF assms(1,2,4)] have near: "\<bar>v - of_int n / 10\<bar> \<le> 1 / 32" .
  define s where "s = \<lfloor>v / 10 powi (- 1)\<rfloor>"
  have t: "v / 10 powi (- 1) = 10 * v" by (simp add: power_int_minus)
  have fl: "of_int s \<le> 10 * v" "10 * v < of_int s + 1"
    unfolding s_def t by linarith+
  from near have n1: "of_int n - 1 / 2 < 10 * v" and n2: "10 * v < of_int n + 1 / 2" by linarith+
  from fl(2) n1 have "(of_int n :: rat) < of_int s + 2" by linarith
  then have "(of_int n :: rat) < of_int (s + 2)" by simp
  then have a: "n < s + 2" by (simp only: of_int_less_iff)
  from fl(1) n2 have "(of_int s :: rat) < of_int n + 1" by linarith
  then have "(of_int s :: rat) < of_int (n + 1)" by simp
  then have b: "s < n + 1" by (simp only: of_int_less_iff)
  have c1: "x * 10 powi (- 1) = x / 10" for x :: rat
    by (simp add: power_int_minus)
  from a b consider "s = n" | "s + 1 = n" by linarith
  then show ?thesis
  proof cases
    case 1
    have ok1: "round_double (of_int n * 10 powi (- 1)) = Fin v"
      using assms(4) by (simp only: c1)
    have "v - of_int n / 10 < (of_int n + 1) / 10 - v" by (rule closer_below [OF n2])
    then have cl: "v - of_int n * 10 powi (- 1) < of_int (n + 1) * 10 powi (- 1) - v"
      by (simp only: c1 of_int_add of_int_1)
    show ?thesis
      by (subst shortest_from.simps)
         (simp only: Let_def s_def [symmetric] 1 ok1 cl simp_thms if_True if_False if_cancel)
  next
    case 2
    have ok2: "round_double (of_int n * 10 powi (- 1)) = Fin v"
      using assms(4) by (simp only: c1)
    have sn: "(of_int s :: rat) = of_int n - 1" using 2 by (metis add_diff_cancel_right' of_int_1 of_int_diff)
    have "\<not> v - (of_int n - 1) / 10 < of_int n / 10 - v" by (rule closer_above(1) [OF n1])
    then have cl1: "\<not> v - of_int s * 10 powi (- 1) < of_int n * 10 powi (- 1) - v"
      by (simp only: c1 sn simp_thms)
    have "of_int n / 10 - v < v - (of_int n - 1) / 10" by (rule closer_above(2) [OF n1])
    then have cl2: "of_int n * 10 powi (- 1) - v < v - of_int s * 10 powi (- 1)"
      by (simp only: c1 sn simp_thms)
    show ?thesis
    proof (cases "round_double (of_int s * 10 powi (- 1)) = Fin v")
      case True
      show ?thesis
        by (subst shortest_from.simps)
           (simp only: Let_def s_def [symmetric] 2 ok2 True cl1 cl2 simp_thms if_True if_False)
    next
      case False
      show ?thesis
        by (subst shortest_from.simps)
           (simp only: Let_def s_def [symmetric] 2 ok2 False simp_thms if_True if_False)
    qed
  qed
qed


lemma floor_rat_numeral_divide:
  "\<lfloor>(numeral a / numeral b :: rat)\<rfloor> = numeral a div numeral b"
  by (metis floor_divide_of_int_eq of_int_numeral)

lemma tenths_positive:
  assumes "0 < n" and "round_double (of_int n / 10) = Fin v"
  shows "0 < v"
proof -
  have d: "is_double (1 / 16)" by (intro is_doubleI [of _ 1 "- 4"]) (simp_all add: power_int_minus)
  from assms(1) have "1 \<le> n" by simp
  then have "(of_int 1 :: rat) \<le> of_int n" by (simp only: of_int_le_iff)
  then have "(1 / 16 :: rat) \<le> of_int n / 10" by simp
  from round_double_ge [OF assms(2) d this] show ?thesis by simp
qed

lemma pos_toString_tenths:
  assumes "0 < n" and "n \<le> 10 ^ 15" and "n mod 10 \<noteq> 0"
    and "round_double (of_int n / 10) = Fin v"
  shows "pos_toString v = digits (n div 10) @ ''.'' @ [digit_char (n mod 10)]"
proof -
  from assms(1) have n0: "0 \<le> n" by simp
  have sp: "shortest_from (int (length (digits \<lceil>v\<rceil>))) v = (n, - 1)"
    using shortest_from_tenths_skip [OF n0 assms(2-4)] shortest_from_tenths [OF n0 assms(2-4)]
    by simp
  show ?thesis
  proof (cases "n < 10")
    case True
    then have "digits n = [digit_char n]" by (rule digits_small)
    moreover from True n0 have "n div 10 = 0" "n mod 10 = n" by simp_all
    ultimately show ?thesis
      unfolding pos_toString_def sp Let_def fst_conv snd_conv
      by (simp add: digits_small digit_char_0)
  next
    case False
    then have ge: "10 \<le> n" by simp
    have dn: "digits n = digits (n div 10) @ [digit_char (n mod 10)]" by (rule digits_step [OF ge])
    have a: "0 < n div 10" using ge by simp
    have "n div 10 < 10 ^ 15" using assms(2) by simp
    from length_digits_le [OF a this] have l: "length (digits (n div 10)) \<le> 15" .
    show ?thesis
      unfolding pos_toString_def sp Let_def fst_conv snd_conv
      using l length_digits_pos [of "n div 10"] by (simp add: dn)
  qed
qed

lemma tenths_string:
  assumes "0 \<le> n" and "n \<le> 10 ^ 15"
  shows "number_toString (round_double (of_int n / 10)) = render_tenths n"
proof (cases "n mod 10 = 0")
  case True
  have a: "0 \<le> n div 10" using assms(1) by simp
  have "(of_int n :: rat) / 10 = of_int (n div 10)"
    using True by (metis dvd_div_mult_self mod_0_imp_dvd mult.commute nonzero_mult_div_cancel_left
        of_int_mult of_int_numeral zero_neq_numeral)
  moreover have j: "\<bar>n div 10\<bar> < 2 ^ 53" using a assms(2) by simp
  moreover from j have "round_double (of_int (n div 10)) = Fin (of_int (n div 10))"
    by (intro round_double_exact is_double_of_int) simp
  ultimately show ?thesis
    using True a number_toString_int [OF j] by (simp add: render_tenths_def)
next
  case False
  with assms(1) have pos: "0 < n" by (cases "n = 0") simp_all
  have b: "0 \<le> n mod 10" "n mod 10 \<le> 9" by simp_all
  have "(of_int n :: rat) \<le> of_int (10 ^ 15)" using assms(2) by (simp only: of_int_le_iff)
  then have "\<bar>(of_int n :: rat) / 10\<bar> < 2 ^ 1023" using assms(1) by simp
  from round_double_finite [OF this] obtain v where v: "round_double (of_int n / 10) = Fin v" ..
  from tenths_positive [OF pos v] have vpos: "0 < v" .
  from pos_toString_tenths [OF pos assms(2) False v] vpos b show ?thesis
    by (simp add: v render_tenths_def False digits_small)
qed

lemma dissimilarity_string:
  assumes "0 \<le> d" and "d < 10 ^ 14"
  shows "number_toString (parseFloat (toFixed (Fin d) 1)) = render_tenths \<lfloor>d * 10 + 1 / 2\<rfloor>"
proof -
  define n where "n = \<lfloor>d * 10 + 1 / 2\<rfloor>"
  from assms(1) have n0: "0 \<le> n" unfolding n_def by simp
  have "d * 10 + 1 / 2 < of_int (10 ^ 15 + 1)" using assms(2) by simp
  then have "n < 10 ^ 15 + 1" unfolding n_def by (simp only: floor_less_iff)
  then have n15: "n \<le> 10 ^ 15" by simp
  have d21: "d < 10 ^ 21" using assms(2) by simp
  have b: "0 \<le> n mod 10" "n mod 10 \<le> 9" by simp_all
  have a: "0 \<le> n div 10" using n0 by simp
  have "parseFloat (digits (n div 10) @ ''.'' @ [digit_char (n mod 10)]) =
          round_double (of_int n / 10)"
    using parseFloat_tenths [OF a b] by simp
  then have pf: "parseFloat (toFixed (Fin d) 1) = round_double (of_int n / 10)"
    by (simp only: toFixed_one [OF assms(1) d21] n_def [symmetric])
  show ?thesis
    by (simp only: pf n_def [symmetric] tenths_string [OF n0 n15])
qed

lemma coherence_string:
  assumes "\<bar>c\<bar> < 10 ^ 15"
  shows "number_toString (math_round (Fin c)) = render_int \<lfloor>c + 1 / 2\<rfloor>"
proof -
  define j where "j = \<lfloor>c + 1 / 2\<rfloor>"
  from assms have c1: "c < 10 ^ 15" and c2: "- (10 ^ 15) < c" by (simp_all add: abs_less_iff)
  have "c + 1 / 2 < of_int (10 ^ 15 + 1)" using c1 by simp
  then have u: "j < 10 ^ 15 + 1" unfolding j_def by (simp only: floor_less_iff)
  have "of_int (- (10 ^ 15)) \<le> c + 1 / 2" using c2 by simp
  then have l: "- (10 ^ 15) \<le> j" unfolding j_def by (simp only: le_floor_iff)
  from u l have "\<bar>j\<bar> < 2 ^ 53" by simp
  from number_toString_int [OF this] show ?thesis
    by (simp add: render_int_def j_def [symmetric])
qed

section \<open>The running sums\<close>

lemma sums_fold_count:
  "sumCoherence (fold count_response rs st) = add_all (map coherence_score rs) (sumCoherence st)"
  "sumDissimilarity (fold count_response rs st) =
     add_all (map embedding_dissimilarity_score rs) (sumDissimilarity st)"
  by (induction rs arbitrary: st) (simp_all add: count_response_def add_all_def)

lemma add_all_append: "add_all (xs @ ys) s = add_all ys (add_all xs s)"
  by (simp add: add_all_def)

lemma sums_question_step:
  "sumCoherence (question_step sel pk qr st) =
     add_all (map coherence_score (if passes sel (fst qr) then snd qr else [])) (sumCoherence st)"
  "sumDissimilarity (question_step sel pk qr st) =
     add_all (map embedding_dissimilarity_score (if passes sel (fst qr) then snd qr else []))
       (sumDissimilarity st)"
  by (simp_all add: question_step_def passes_def Let_def sums_fold_count add_all_def)

lemma sums_fold_question_step:
  "sumCoherence (fold (question_step sel pk) qs st) =
     add_all (map coherence_score (concat (map snd (filter (\<lambda>qr. passes sel (fst qr)) qs))))
       (sumCoherence st)"
  "sumDissimilarity (fold (question_step sel pk) qs st) =
     add_all (map embedding_dissimilarity_score
                (concat (map snd (filter (\<lambda>qr. passes sel (fst qr)) qs)))) (sumDissimilarity st)"
  by (induction qs arbitrary: st) (simp_all add: sums_question_step add_all_append, simp_all add: add_all_def)

lemma sums_fold_param_step:
  "sumCoherence (fold (param_step sel) ps st) =
     add_all (map coherence_score (included_responses sel ps)) (sumCoherence st)"
  "sumDissimilarity (fold (param_step sel) ps st) =
     add_all (map embedding_dissimilarity_score (included_responses sel ps)) (sumDissimilarity st)"
  by (induction ps arbitrary: st)
     (simp_all add: param_step_def sums_fold_question_step included_responses_def add_all_append,
      simp_all add: add_all_def)

lemma sums_model_state:
  "sumCoherence (model_state sel ps) = add_all (map coherence_score (included_responses sel ps)) (Fin 0)"
  "sumDissimilarity (model_state sel ps) =
     add_all (map embedding_dissimilarity_score (included_responses sel ps)) (Fin 0)"
  by (simp_all add: model_state_def sums_fold_param_step init_state_def)

lemma length_included_responses: "length (included_responses sel ps) = included_count sel ps"
proof -
  have "length (concat (map snd (filter P qs))) = (\<Sum>qr\<leftarrow>qs. if P qr then length (snd qr) else 0)"
    for P and qs :: questions
    by (induction qs) simp_all
  then show ?thesis
    by (induction ps) (simp_all add: included_responses_def included_count_def)
qed

section \<open>Evaluating the rounding at given Numbers\<close>

lemma expo_eq:
  assumes "2 powi (e + 52) \<le> \<bar>r\<bar>" and "\<bar>r\<bar> < 2 powi (e + 53)" and "- 1074 \<le> e"
  shows "expo r = e"
proof -
  have "ilog2 \<bar>r\<bar> = e + 52"
    using assms(1,2) by (intro ilog2_unique) (simp_all add: add.commute add.left_commute)
  with assms(3) show ?thesis by (simp add: expo_def)
qed

lemma round_double_eval:
  assumes "2 powi (e + 52) \<le> \<bar>r\<bar>" and "\<bar>r\<bar> < 2 powi (e + 53)" and "- 1074 \<le> e" and "e \<le> 970"
    and "round_half_even (r / 2 powi e) = m"
  shows "round_double r = Fin (of_int m * 2 powi e)"
proof -
  have e: "expo r = e" by (rule expo_eq [OF assms(1-3)])
  have "0 < \<bar>r\<bar>" using assms(1) two_powi_pos [of "e + 52"] by linarith
  then have r0: "r \<noteq> 0" by simp
  have "(2::rat) powi (e + 53) \<le> 2 powi 1023" using assms(4) by (intro two_powi_mono) simp
  with assms(2) have "\<bar>r\<bar> < 2 ^ 1023" by simp
  from round_double_finite [OF this] obtain v where v: "round_double r = Fin v" ..
  from round_double_Fin_unfold [OF v r0] show ?thesis by (simp add: v e assms(5))
qed

lemma round_double_dyadic:
  assumes "\<bar>m\<bar> < 2 ^ 53" and "- 1074 \<le> e" and "e \<le> 971" and "v = of_int m * 2 powi e"
  shows "round_double v = Fin v"
  by (rule round_double_exact) (rule is_doubleI [OF assms(4,1,2,3)])

lemma double_3_2: "round_double (16 / 5) = Fin (3602879701896397 / 1125899906842624)"
proof -
  have "round_double (16 / 5) = Fin (of_int 7205759403792794 * 2 powi (- 51))"
    by (rule round_double_eval)
       (simp_all add: power_int_minus round_half_even_def Let_def floor_rat_numeral_divide)
  then show ?thesis by (simp add: power_int_minus)
qed

lemma double_4_8: "round_double (24 / 5) = Fin (5404319552844595 / 1125899906842624)"
proof -
  have "round_double (24 / 5) = Fin (of_int 5404319552844595 * 2 powi (- 50))"
    by (rule round_double_eval)
       (simp_all add: power_int_minus round_half_even_def Let_def floor_rat_numeral_divide)
  then show ?thesis by (simp add: power_int_minus)
qed

lemma double_0_1: "round_double (1 / 10) = Fin (3602879701896397 / 36028797018963968)"
proof -
  have "round_double (1 / 10) = Fin (of_int 7205759403792794 * 2 powi (- 56))"
    by (rule round_double_eval)
       (simp_all add: power_int_minus round_half_even_def Let_def floor_rat_numeral_divide)
  then show ?thesis by (simp add: power_int_minus)
qed

lemma double_0_25: "round_double (1 / 4) = Fin (1 / 4)"
  by (rule round_double_dyadic [of 1 "- 2"]) (simp_all add: power_int_minus)

lemma sum_3_2_4_8:
  "add_all [round_double (16 / 5), round_double (24 / 5)] (Fin 0) = Fin 8"
proof -
  have a: "round_double (3602879701896397 / 1125899906842624) = Fin (3602879701896397 / 1125899906842624)"
    by (rule round_double_dyadic [of 3602879701896397 "- 50"]) (simp_all add: power_int_minus)
  have b: "round_double 8 = Fin 8"
    by (rule round_double_dyadic [of 8 0]) simp_all
  show ?thesis
    by (simp add: add_all_def double_3_2 double_4_8 a b)
qed

lemma sum_0_1_0_25:
  "add_all [round_double (1 / 10), round_double (1 / 4)] (Fin 0) =
     Fin (3152519739159347 / 9007199254740992)"
proof -
  have a: "round_double (3602879701896397 / 36028797018963968) = Fin (3602879701896397 / 36028797018963968)"
    by (rule round_double_dyadic [of 3602879701896397 "- 55"]) (simp_all add: power_int_minus)
  have "round_double (12610078956637389 / 36028797018963968) =
          Fin (of_int 6305039478318694 * 2 powi (- 54))"
    by (rule round_double_eval)
       (simp_all add: power_int_minus round_half_even_def Let_def floor_rat_numeral_divide)
  then have b: "round_double (12610078956637389 / 36028797018963968) =
          Fin (3152519739159347 / 9007199254740992)"
    by (simp add: power_int_minus)
  show ?thesis
    by (simp add: add_all_def double_0_1 double_0_25 a b)
qed

lemma render_8: "render_int \<lfloor>(8::rat) + 1 / 2\<rfloor> = ''8''"
proof -
  have "\<lfloor>(8::rat) + 1 / 2\<rfloor> = 8" by (simp add: floor_rat_numeral_divide)
  then show ?thesis by (simp add: render_int_def digits.simps digit_char_def char_of_def)
qed

lemma render_0_3:
  "render_tenths \<lfloor>(3152519739159347 / 9007199254740992 :: rat) * 10 + 1 / 2\<rfloor> = ''0.3''"
proof -
  have "\<lfloor>(3152519739159347 / 9007199254740992 :: rat) * 10 + 1 / 2\<rfloor> = 3"
    by (simp add: floor_rat_numeral_divide)
  then show ?thesis by (simp add: render_tenths_def digits.simps digit_char_def char_of_def)
qed

section \<open>The claims about formatting and scaling\<close>

lemma totalResponses_pos_iff:
  "0 < totalResponses (model_metrics sel mp) \<longleftrightarrow> included_responses sel (snd mp) \<noteq> []"
  by (simp add: totalResponses_model_metrics length_included_responses [symmetric])

lemma totalCoherence_model_metrics:
  "totalCoherence (model_metrics sel mp) =
     (if 0 < totalResponses (model_metrics sel mp)
      then number_toString (math_round (sumCoherence (model_state sel (snd mp)))) else ''0'')"
  by (simp add: model_metrics_def Let_def)

lemma totalDissimilarity_model_metrics:
  "totalDissimilarity (model_metrics sel mp) =
     (if 0 < totalResponses (model_metrics sel mp)
      then number_toString (parseFloat (toFixed (sumDissimilarity (model_state sel (snd mp))) 1))
      else ''0'')"
  by (simp add: model_metrics_def Let_def)

lemma example_strings:
  assumes "map coherence_score (included_responses sel (snd mp)) =
             [round_double (16 / 5), round_double (24 / 5)]"
    and "map embedding_dissimilarity_score (included_responses sel (snd mp)) =
             [round_double (1 / 10), round_double (1 / 4)]"
  shows "totalCoherence (model_metrics sel mp) = ''8''"
    and "totalDissimilarity (model_metrics sel mp) = ''0.3''"
proof -
  from assms(1) have "included_responses sel (snd mp) \<noteq> []" by auto
  then have pos: "0 < totalResponses (model_metrics sel mp)" by (simp add: totalResponses_pos_iff)
  have c: "sumCoherence (model_state sel (snd mp)) = Fin 8"
    by (simp only: sums_model_state assms(1) sum_3_2_4_8)
  have d: "sumDissimilarity (model_state sel (snd mp)) = Fin (3152519739159347 / 9007199254740992)"
    by (simp only: sums_model_state assms(2) sum_0_1_0_25)
  have "number_toString (math_round (Fin 8)) = ''8''"
    using coherence_string [of 8] by (simp only: render_8) simp
  with pos c show "totalCoherence (model_metrics sel mp) = ''8''"
    by (simp only: totalCoherence_model_metrics if_True)
  have "number_toString (parseFloat (toFixed (Fin (3152519739159347 / 9007199254740992)) 1)) = ''0.3''"
    using dissimilarity_string [of "3152519739159347 / 9007199254740992"]
    by (simp only: render_0_3) simp
  with pos d show "totalDissimilarity (model_metrics sel mp) = ''0.3''"
    by (simp only: totalDissimilarity_model_metrics if_True)
qed

lemma example_included:
  "map coherence_score (included_responses [] (snd (hd example_models))) =
     [round_double (16 / 5), round_double (24 / 5)]"
  "map embedding_dissimilarity_score (included_responses [] (snd (hd example_models))) =
     [round_double (1 / 10), round_double (1 / 4)]"
  by (simp_all add: example_models_def included_responses_def passes_def)

text \<open>
  \<^bold>\<open>Claim C3 (amended).\<close> For a model whose included responses have the
  coherence scores 3.2 and 4.8 and the dissimilarity scores 0.1 and 0.25,
  \<^verbatim>\<open>totalCoherence\<close> is \<^verbatim>\<open>"8"\<close> and
  \<^verbatim>\<open>totalDissimilarity\<close> is \<^verbatim>\<open>"0.3"\<close>: the
  binary64 sum of 0.1 and 0.25 lies just below 0.35, and one fraction digit is kept.
\<close>

theorem formatting_example:
  assumes "map coherence_score (included_responses sel (snd mp)) =
             [round_double (16 / 5), round_double (24 / 5)]"
    and "map embedding_dissimilarity_score (included_responses sel (snd mp)) =
             [round_double (1 / 10), round_double (1 / 4)]"
  shows "totalCoherence (model_metrics sel mp) = ''8''
       \<and> totalDissimilarity (model_metrics sel mp) = ''0.3''"
  using example_strings [OF assms] by simp

text \<open>
  \<^bold>\<open>Claim C3, closed instance.\<close> The dataset of the example, under the empty
  filter.
\<close>

theorem formatting_example_witness:
  "map coherence_score (included_responses [] (snd (hd example_models))) =
     [round_double (16 / 5), round_double (24 / 5)]
   \<and> map embedding_dissimilarity_score (included_responses [] (snd (hd example_models))) =
     [round_double (1 / 10), round_double (1 / 4)]
   \<and> map totalCoherence (modelsMetrics example_models []) = [''8'']
   \<and> map totalDissimilarity (modelsMetrics example_models []) = [''0.3'']"
proof -
  have m: "modelsMetrics example_models [] = [model_metrics [] (hd example_models)]"
    by (simp add: modelsMetrics_def aggregate_def js_sort_def example_models_def)
  from formatting_example [OF example_included] example_included m show ?thesis by simp
qed

text \<open>
  \<^bold>\<open>Claim C3 as stated fails.\<close> On the dataset of the example
  \<^verbatim>\<open>totalDissimilarity\<close> is not \<^verbatim>\<open>"0.35"\<close>.
\<close>

theorem formatting_example_not_0_35:
  "map totalDissimilarity (modelsMetrics example_models []) \<noteq> [''0.35'']"
proof -
  have m: "modelsMetrics example_models [] = [model_metrics [] (hd example_models)]"
    by (simp add: modelsMetrics_def aggregate_def js_sort_def example_models_def)
  from example_strings(2) [OF example_included] m show ?thesis by simp
qed

lemma render_int_no_point: "CHR ''.'' \<notin> set (render_int j)"
proof -
  have "CHR ''.'' \<notin> set (digits n)" if "0 \<le> n" for n
    using digits_all_digit [OF that] not_digit_point by blast
  then show ?thesis by (simp add: render_int_def)
qed

lemma render_tenths_examples: "render_tenths 20 = ''2''" "render_tenths 25 = ''2.5''"
  by (simp_all add: render_tenths_def digits.simps digit_char_def char_of_def)

text \<open>
  \<^bold>\<open>Claim C6 (amended).\<close> With no included response both strings are
  \<^verbatim>\<open>"0"\<close>. With at least one: when the summed coherence is a finite
  Number of magnitude below \<open>10 ^ 15\<close>, \<^verbatim>\<open>totalCoherence\<close> is
  the decimal numeral of the sum rounded to the nearest integer (a tie going up) and has no
  decimal point; when the summed dissimilarity is a finite Number that is at least 0 and
  below \<open>10 ^ 14\<close>, \<^verbatim>\<open>totalDissimilarity\<close> is the numeral of
  the sum rounded to one fraction digit (a tie going up), without the fraction part when that
  digit is zero: 2.0 gives \<^verbatim>\<open>"2"\<close> and 2.5 gives
  \<^verbatim>\<open>"2.5"\<close>.
\<close>

theorem formatting_policy:
  "(totalResponses (model_metrics sel mp) = 0 \<longrightarrow>
      totalCoherence (model_metrics sel mp) = ''0''
      \<and> totalDissimilarity (model_metrics sel mp) = ''0'')
   \<and> (0 < totalResponses (model_metrics sel mp) \<longrightarrow>
        (\<forall>c. sumCoherence (model_state sel (snd mp)) = Fin c \<and> \<bar>c\<bar> < 10 ^ 15 \<longrightarrow>
             totalCoherence (model_metrics sel mp) = render_int \<lfloor>c + 1 / 2\<rfloor>
             \<and> CHR ''.'' \<notin> set (totalCoherence (model_metrics sel mp)))
      \<and> (\<forall>d. sumDissimilarity (model_state sel (snd mp)) = Fin d \<and> 0 \<le> d \<and> d < 10 ^ 14 \<longrightarrow>
             totalDissimilarity (model_metrics sel mp) = render_tenths \<lfloor>d * 10 + 1 / 2\<rfloor>))
   \<and> render_tenths 20 = ''2'' \<and> render_tenths 25 = ''2.5''"
proof (intro conjI impI allI)
  assume "totalResponses (model_metrics sel mp) = 0"
  then show "totalCoherence (model_metrics sel mp) = ''0''"
    and "totalDissimilarity (model_metrics sel mp) = ''0''"
    by (simp_all add: totalCoherence_model_metrics totalDissimilarity_model_metrics)
next
  fix c
  assume pos: "0 < totalResponses (model_metrics sel mp)"
    and c: "sumCoherence (model_state sel (snd mp)) = Fin c \<and> \<bar>c\<bar> < 10 ^ 15"
  then have "totalCoherence (model_metrics sel mp) = number_toString (math_round (Fin c))"
    by (simp only: totalCoherence_model_metrics if_True)
  with c show t: "totalCoherence (model_metrics sel mp) = render_int \<lfloor>c + 1 / 2\<rfloor>"
    by (simp only: coherence_string)
  show "CHR ''.'' \<notin> set (totalCoherence (model_metrics sel mp))"
    unfolding t by (rule render_int_no_point)
next
  fix d
  assume pos: "0 < totalResponses (model_metrics sel mp)"
    and d: "sumDissimilarity (model_state sel (snd mp)) = Fin d \<and> 0 \<le> d \<and> d < 10 ^ 14"
  then have "totalDissimilarity (model_metrics sel mp) =
      number_toString (parseFloat (toFixed (Fin d) 1))"
    by (simp only: totalDissimilarity_model_metrics if_True)
  with d show "totalDissimilarity (model_metrics sel mp) = render_tenths \<lfloor>d * 10 + 1 / 2\<rfloor>"
    by (simp only: dissimilarity_string)
qed (rule render_tenths_examples)+

lemma example_state:
  "sumCoherence (model_state [] (snd (hd example_models))) = Fin 8"
  "sumDissimilarity (model_state [] (snd (hd example_models))) =
     Fin (3152519739159347 / 9007199254740992)"
  "totalResponses (model_metrics [] (hd example_models)) = 2"
  by (simp_all only: sums_model_state example_included sum_3_2_4_8 sum_0_1_0_25
      totalResponses_model_metrics length_included_responses [symmetric])
     (simp add: example_models_def included_responses_def passes_def)

text \<open>
  \<^bold>\<open>Claim C6, closed instance.\<close> The dataset of the formatting example under
  the empty filter, and under a filter that includes none of its questions.
\<close>

theorem formatting_policy_witness:
  "0 < totalResponses (model_metrics [] (hd example_models))
   \<and> sumCoherence (model_state [] (snd (hd example_models))) = Fin 8
   \<and> \<bar>8 :: rat\<bar> < 10 ^ 15
   \<and> totalCoherence (model_metrics [] (hd example_models)) = ''8''
   \<and> sumDissimilarity (model_state [] (snd (hd example_models))) =
        Fin (3152519739159347 / 9007199254740992)
   \<and> (0 :: rat) \<le> 3152519739159347 / 9007199254740992
   \<and> (3152519739159347 / 9007199254740992 :: rat) < 10 ^ 14
   \<and> totalDissimilarity (model_metrics [] (hd example_models)) = ''0.3''
   \<and> totalResponses (model_metrics [''Q2''] (hd example_models)) = 0
   \<and> totalCoherence (model_metrics [''Q2''] (hd example_models)) = ''0''
   \<and> totalDissimilarity (model_metrics [''Q2''] (hd example_models)) = ''0''"
proof -
  have pos: "0 < totalResponses (model_metrics [] (hd example_models))"
    by (simp add: example_state)
  have b1: "\<bar>8 :: rat\<bar> < 10 ^ 15" by simp
  have b2: "(0 :: rat) \<le> 3152519739159347 / 9007199254740992"
    "(3152519739159347 / 9007199254740992 :: rat) < 10 ^ 14" by simp_all
  note p = formatting_policy [of "[]" "hd example_models"]
  from p pos example_state(1) b1
  have "totalCoherence (model_metrics [] (hd example_models)) = render_int \<lfloor>(8::rat) + 1 / 2\<rfloor>"
    by blast
  then have c: "totalCoherence (model_metrics [] (hd example_models)) = ''8''"
    by (simp only: render_8)
  from p pos example_state(2) b2
  have "totalDissimilarity (model_metrics [] (hd example_models)) =
      render_tenths \<lfloor>(3152519739159347 / 9007199254740992 :: rat) * 10 + 1 / 2\<rfloor>"
    by blast
  then have d: "totalDissimilarity (model_metrics [] (hd example_models)) = ''0.3''"
    by (simp only: render_0_3)
  have z: "totalResponses (model_metrics [''Q2''] (hd example_models)) = 0"
    by (simp add: totalResponses_model_metrics included_count_def passes_def example_models_def)
  with formatting_policy [of "[''Q2'']" "hd example_models"]
  have "totalCoherence (model_metrics [''Q2''] (hd example_models)) = ''0''"
    "totalDissimilarity (model_metrics [''Q2''] (hd example_models)) = ''0''" by blast+
  with pos example_state(1,2) b1 b2 c d z show ?thesis by blast
qed

lemma toString_large: "number_toString (Fin 1500000000000000000000) = ''1.5e+21''"
proof -
  let ?x = "1500000000000000000000 :: rat"
  have r0: "round_double 0 \<noteq> Fin ?x" by (simp add: round_double_def)
  have "round_double 10000000000000000000000 = Fin 10000000000000000000000"
    by (rule round_double_dyadic [of 2384185791015625 22]) simp_all
  then have r1: "round_double 10000000000000000000000 \<noteq> Fin ?x" by simp
  have "round_double 1000000000000000000000 = Fin 1000000000000000000000"
    by (rule round_double_dyadic [of 476837158203125 21]) simp_all
  then have r2: "round_double 1000000000000000000000 \<noteq> Fin ?x" by simp
  have "round_double 2000000000000000000000 = Fin 2000000000000000000000"
    by (rule round_double_dyadic [of 953674316406250 21]) simp_all
  then have r3: "round_double 2000000000000000000000 \<noteq> Fin ?x" by simp
  have r4: "round_double ?x = Fin ?x"
    by (rule round_double_dyadic [of 1430511474609375 20]) simp_all
  have "round_double 1600000000000000000000 = Fin 1600000000000000000000"
    by (rule round_double_dyadic [of 1525878906250000 20]) simp_all
  then have r5: "round_double 1600000000000000000000 \<noteq> Fin ?x" by simp
  have s22: "shortest_from 22 ?x = shortest_from 21 ?x"
    by (subst shortest_from.simps) (simp add: Let_def floor_rat_numeral_divide r0 r1)
  have s21: "shortest_from 21 ?x = shortest_from 20 ?x"
    by (subst shortest_from.simps) (simp add: Let_def floor_rat_numeral_divide r2 r3)
  have s20: "shortest_from 20 ?x = (15, 20)"
    by (subst shortest_from.simps) (simp add: Let_def floor_rat_numeral_divide r4 r5)
  have len: "int (length (digits \<lceil>?x\<rceil>)) = 22"
    by (simp add: digits.simps)
  have "pos_toString ?x = ''1.5e+21''"
    unfolding pos_toString_def len s22 s21 s20 Let_def fst_conv snd_conv
    by (simp add: digits.simps digit_char_def char_of_def)
  then show ?thesis by simp
qed

text \<open>
  \<^bold>\<open>Claim C6 as stated fails.\<close> One response of coherence
  \<open>1.5e21\<close> gives \<^verbatim>\<open>totalResponses = 1\<close> and the string
  \<^verbatim>\<open>"1.5e+21"\<close>, which has a decimal point.
\<close>

theorem large_coherence_has_point:
  "map totalResponses (modelsMetrics large_models []) = [1]
   \<and> map totalCoherence (modelsMetrics large_models []) = [''1.5e+21'']"
proof -
  let ?mp = "hd large_models"
  have m: "modelsMetrics large_models [] = [model_metrics [] ?mp]"
    by (simp add: modelsMetrics_def aggregate_def js_sort_def large_models_def)
  have inc: "map coherence_score (included_responses [] (snd ?mp)) = [Fin 1500000000000000000000]"
    by (simp add: large_models_def included_responses_def passes_def)
  have t: "totalResponses (model_metrics [] ?mp) = 1"
    by (simp add: totalResponses_model_metrics included_count_def passes_def large_models_def)
  have r: "round_double 1500000000000000000000 = Fin 1500000000000000000000"
    by (rule round_double_dyadic [of 1430511474609375 20]) simp_all
  have c: "sumCoherence (model_state [] (snd ?mp)) = Fin 1500000000000000000000"
    by (simp only: sums_model_state inc) (simp add: add_all_def r)
  have mr: "math_round (Fin 1500000000000000000000) = Fin 1500000000000000000000"
    by (simp add: floor_rat_numeral_divide)
  have "totalCoherence (model_metrics [] ?mp) = ''1.5e+21''"
    by (simp only: totalCoherence_model_metrics c mr toString_large t zero_less_one if_True)
  with m t show ?thesis by simp
qed

lemma ratio_bounds:
  assumes "totalResponses x \<le> best"
  shows "\<exists>r. ratio best x = Fin r \<and> 0 \<le> r \<and> r \<le> 100"
proof (cases "best = 0")
  case True
  then show ?thesis by (simp add: ratio_def)
next
  case False
  define q where "q = (of_nat (totalResponses x) :: rat) / of_nat best"
  have d0: "is_double 0" by (rule is_doubleI [of _ 0 0]) simp_all
  have d1: "is_double 1" by (rule is_doubleI [of _ 1 0]) simp_all
  have d100: "is_double 100" by (rule is_doubleI [of _ 100 0]) simp_all
  from False assms have q: "0 \<le> q" "q \<le> 1" by (simp_all add: q_def)
  then have "\<bar>q\<bar> < 2 ^ 1023" by simp
  from round_double_finite [OF this] obtain u where u: "round_double q = Fin u" ..
  from round_double_ge [OF u d0 q(1)] round_double_le [OF u d1 q(2)]
  have ub: "0 \<le> u" "u \<le> 1" .
  then have "\<bar>u * 100\<bar> < 2 ^ 1023" by simp
  from round_double_finite [OF this] obtain w where w: "round_double (u * 100) = Fin w" ..
  from ub have "0 \<le> u * 100" "u * 100 \<le> 100" by simp_all
  from round_double_ge [OF w d0 this(1)] round_double_le [OF w d100 this(2)]
  have "0 \<le> w" "w \<le> 100" .
  moreover have "ratio best x = Fin w"
    using False by (simp add: ratio_def q_def [symmetric] u w)
  ultimately show ?thesis by blast
qed

text \<open>
  \<^bold>\<open>Claim C8.\<close> The scaling baseline of an empty sequence is 0 and otherwise
  the \<^verbatim>\<open>totalResponses\<close> of the first summary; the ratio against the
  baseline 0 is 0, and for every ranked summary the ratio against the baseline of its ranking is
  a finite Number between 0 and 100, never the \<^verbatim>\<open>NaN\<close> or infinity that a
  division by zero gives.
\<close>

theorem baseline_and_ratio:
  "bestTotal [] = 0
   \<and> bestTotal (m # ms) = totalResponses m
   \<and> ratio 0 model = Fin 0
   \<and> (\<forall>x\<in>set (modelsMetrics ds sel).
         \<exists>r. ratio (bestTotal (modelsMetrics ds sel)) x = Fin r \<and> 0 \<le> r \<and> r \<le> 100)"
proof -
  have s: "sorted_wrt desc (modelsMetrics ds sel)"
    by (simp add: modelsMetrics_def sorted_js_sort)
  have "\<exists>r. ratio (bestTotal (modelsMetrics ds sel)) x = Fin r \<and> 0 \<le> r \<and> r \<le> 100"
    if "x \<in> set (modelsMetrics ds sel)" for x
    by (rule ratio_bounds) (rule sorted_head_max [OF s that])
  then show ?thesis by (simp add: bestTotal_def ratio_def)
qed

text \<open>
  \<^bold>\<open>Claim C8, closed instance.\<close> The last summary of the ranked sample
  dataset has half the baseline.
\<close>

theorem baseline_and_ratio_witness:
  "modelsMetrics sample_models [] ! 2 \<in> set (modelsMetrics sample_models [])
   \<and> bestTotal (modelsMetrics sample_models []) = 2
   \<and> totalResponses (modelsMetrics sample_models [] ! 2) = 1
   \<and> ratio (bestTotal (modelsMetrics sample_models [])) (modelsMetrics sample_models [] ! 2) = Fin 50
   \<and> (\<exists>r. ratio (bestTotal (modelsMetrics sample_models [])) (modelsMetrics sample_models [] ! 2)
            = Fin r \<and> 0 \<le> r \<and> r \<le> 100)"
proof -
  have h: "modelsMetrics sample_models [] ! 2 \<in> set (modelsMetrics sample_models [])"
    by (simp add: sample_ranked)
  have b: "bestTotal (modelsMetrics sample_models []) = 2"
    by (simp add: sample_ranked bestTotal_def totalResponses_model_metrics included_count_def
        passes_def)
  have t: "totalResponses (modelsMetrics sample_models [] ! 2) = 1"
    by (simp add: sample_ranked totalResponses_model_metrics included_count_def passes_def)
  have r1: "round_double (1 / 2) = Fin (1 / 2)"
    by (rule round_double_dyadic [of 1 "- 1"]) (simp_all add: power_int_minus)
  have r2: "round_double 50 = Fin 50"
    by (rule round_double_dyadic [of 50 0]) simp_all
  have v: "ratio (bestTotal (modelsMetrics sample_models [])) (modelsMetrics sample_models [] ! 2) = Fin 50"
    by (simp add: b t ratio_def r1 r2)
  from baseline_and_ratio [of _ _ _ sample_models "[]"] h
  have "\<exists>r. ratio (bestTotal (modelsMetrics sample_models [])) (modelsMetrics sample_models [] ! 2)
            = Fin r \<and> 0 \<le> r \<and> r \<le> 100" by blast
  with h b t v show ?thesis by blast
qed

end
